theory Spec2Isabelle
  imports Complex_Main "HOL-Library.Word" "HOL-Library.Char_ord" "HOL-Library.List_Lexorder"
begin

unbundle bit_operations_syntax

section \<open>Common types\<close>

type_synonym u8 = "8 word"
type_synonym u64 = "64 word"

text \<open>An \<open>std::int64_t\<close>: a 64-bit word read as two's complement by \<open>sint\<close>.\<close>

type_synonym i64 = "64 word"

text \<open>The C++ exceptions thrown by the components.\<close>

datatype error = Invalid_argument | Runtime_error | Out_of_range

text \<open>Incrementing a loop counter below its bound does not wrap.\<close>

lemma unat_succ_less: "i < (d::u64) \<Longrightarrow> unat (i + 1) = Suc (unat i)"
proof -
  assume "i < d"
  then have "unat i < unat d"
    by (simp add: word_less_nat_alt)
  moreover have "unat d < 2 ^ 64"
    using unsigned_less [of d] by simp
  ultimately have "unat i + unat (1 :: u64) < 2 ^ LENGTH(64)"
    by simp
  then have "unat (i + 1) = unat i + unat (1 :: u64)"
    by (simp only: unat_add_lem [THEN iffD1])
  then show ?thesis by simp
qed

section \<open>MurmurHash3 x64, folded to 64 bits\<close>

text \<open>
  \<open>murmurhash3_64\<close> of \<open>count_min_sketch.cpp\<close> and \<open>hyperloglog.cpp\<close> (the two
  copies are the same function).  A \<open>std::string\<close> is a sequence of bytes, here a
  \<open>string\<close>; the block reads through \<open>const std::uint64_t*\<close> are little-endian
  loads, as on the x86-64 and AArch64 targets of the extension.
\<close>

definition rotl64 :: "u64 \<Rightarrow> nat \<Rightarrow> u64" where
  "rotl64 x r = push_bit r x OR drop_bit (64 - r) x"

definition fmix64 :: "u64 \<Rightarrow> u64" where
  "fmix64 k =
     (let k = k XOR drop_bit 33 k;
          k = k * 0xff51afd7ed558ccd;
          k = k XOR drop_bit 33 k;
          k = k * 0xc4ceb9fe1a85ec53;
          k = k XOR drop_bit 33 k
      in k)"

definition c1 :: u64 where "c1 = 0x87c37b91114253d5"
definition c2 :: u64 where "c2 = 0x4cf5ad432745937f"

text \<open>Bytes \<open>b\<^sub>0 b\<^sub>1 \<dots>\<close> combined as \<open>b\<^sub>0 ^ (b\<^sub>1 << 8) ^ \<dots>\<close>.\<close>

fun load_le :: "string \<Rightarrow> u64" where
  "load_le [] = 0"
| "load_le (c # cs) = of_char c XOR push_bit 8 (load_le cs)"

definition mix_k1 :: "u64 \<Rightarrow> u64" where
  "mix_k1 k1 = rotl64 (k1 * c1) 31 * c2"

definition mix_k2 :: "u64 \<Rightarrow> u64" where
  "mix_k2 k2 = rotl64 (k2 * c2) 33 * c1"

text \<open>One iteration of the body loop on a 16-byte block.\<close>

definition murmur_block :: "string \<Rightarrow> u64 \<times> u64 \<Rightarrow> u64 \<times> u64" where
  "murmur_block blk h =
     (let k1 = load_le (take 8 blk);
          k2 = load_le (take 8 (drop 8 blk));
          h1 = fst h XOR mix_k1 k1;
          h1 = rotl64 h1 27;
          h1 = h1 + snd h;
          h1 = h1 * 5 + 0x52dce729;
          h2 = snd h XOR mix_k2 k2;
          h2 = rotl64 h2 31;
          h2 = h2 + h1;
          h2 = h2 * 5 + 0x38495ab5
      in (h1, h2))"

text \<open>The body loop over the \<open>len / 16\<close> full blocks; returns the state and the tail.\<close>

function murmur_body :: "string \<Rightarrow> u64 \<times> u64 \<Rightarrow> (u64 \<times> u64) \<times> string" where
  "murmur_body data h =
     (if 16 \<le> length data
      then murmur_body (drop 16 data) (murmur_block (take 16 data) h)
      else (h, data))"
  by pat_completeness auto
termination
  by (relation "measure (\<lambda>(data, h). length data)") auto

declare murmur_body.simps [simp del]

text \<open>The \<open>switch (len & 15)\<close> with its fall-through cases.\<close>

definition murmur_tail :: "string \<Rightarrow> u64 \<times> u64 \<Rightarrow> u64 \<times> u64" where
  "murmur_tail rest h =
     (let h2 = (if 9 \<le> length rest then snd h XOR mix_k2 (load_le (drop 8 rest)) else snd h);
          h1 = (if 1 \<le> length rest then fst h XOR mix_k1 (load_le (take 8 rest)) else fst h)
      in (h1, h2))"

definition murmurhash3_64 :: "string \<Rightarrow> u64 \<Rightarrow> u64" where
  "murmurhash3_64 key seed =
     (let (h, rest) = murmur_body key (seed, seed);
          (h1, h2) = murmur_tail rest h;
          h1 = h1 XOR of_nat (length key);
          h2 = h2 XOR of_nat (length key);
          h1 = h1 + h2;
          h2 = h2 + h1;
          h1 = fmix64 h1;
          h2 = fmix64 h2;
          h1 = h1 + h2
      in h1)"

section \<open>Count-Min Sketch\<close>

text \<open>
  \<open>CountMinSketch\<close>: the members \<open>width_\<close> and \<open>depth_\<close> are \<open>std::size_t\<close> (64-bit), the
  table a \<open>std::vector<std::uint64_t>\<close> of \<open>width * depth\<close> counters.
\<close>

record count_min_sketch =
  cms_width :: u64
  cms_depth :: u64
  cms_seed :: u64
  cms_table :: "u64 list"

text \<open>
  The constructor: the member initialisers build the table, then the two checks throw
  \<open>std::invalid_argument\<close>.
\<close>

definition CountMinSketch :: "u64 \<Rightarrow> u64 \<Rightarrow> u64 \<Rightarrow> error + count_min_sketch" where
  "CountMinSketch width depth seed =
     (if width AND (width - 1) \<noteq> 0 then Inl Invalid_argument
      else if depth = 0 then Inl Invalid_argument
      else Inr \<lparr>cms_width = width, cms_depth = depth, cms_seed = seed,
                cms_table = replicate (unat (width * depth)) 0\<rparr>)"

definition hash :: "count_min_sketch \<Rightarrow> string \<Rightarrow> u64 \<Rightarrow> u64" where
  "hash s key index =
     (let salt = cms_seed s + index * 0x9e3779b97f4a7c15
      in murmurhash3_64 key salt)"

text \<open>The table index \<open>(i * width_) + (h & (width_ - 1))\<close> of row \<open>i\<close>.\<close>

definition cell_index :: "count_min_sketch \<Rightarrow> string \<Rightarrow> u64 \<Rightarrow> nat" where
  "cell_index s key i = unat (i * cms_width s + (hash s key i AND (cms_width s - 1)))"

text \<open>
  The loop \<open>for (i = 0; i < depth_; ++i) table_[idx] += count\<close>, from row \<open>i\<close> on.
  Indexing a vector out of range is undefined in the source; \<open>cms_index_in_range\<close>
  below shows that it does not happen on a sketch whose table has \<open>width * depth\<close>
  cells.
\<close>

function increment_loop :: "count_min_sketch \<Rightarrow> string \<Rightarrow> u64 \<Rightarrow> u64 \<Rightarrow> count_min_sketch" where
  "increment_loop s key count i =
     (if i < cms_depth s
      then increment_loop
             (s\<lparr>cms_table := (cms_table s)[cell_index s key i := cms_table s ! cell_index s key i + count]\<rparr>)
             key count (i + 1)
      else s)"
  by pat_completeness auto
termination
  by (relation "measure (\<lambda>(s, key, count, i). unat (cms_depth s) - unat i)")
    (simp_all add: unat_succ_less word_less_nat_alt)

declare increment_loop.simps [simp del]

definition increment :: "count_min_sketch \<Rightarrow> string \<Rightarrow> u64 \<Rightarrow> count_min_sketch" where
  "increment s key count = increment_loop s key count 0"

function estimate_loop :: "count_min_sketch \<Rightarrow> string \<Rightarrow> u64 \<Rightarrow> u64 \<Rightarrow> u64" where
  "estimate_loop s key result i =
     (if i < cms_depth s
      then estimate_loop s key (min result (cms_table s ! cell_index s key i)) (i + 1)
      else result)"
  by pat_completeness auto
termination
  by (relation "measure (\<lambda>(s, key, result, i). unat (cms_depth s) - unat i)")
    (simp_all add: unat_succ_less word_less_nat_alt)

declare estimate_loop.simps [simp del]

definition estimate :: "count_min_sketch \<Rightarrow> string \<Rightarrow> u64" where
  "estimate s key =
     (let result = estimate_loop s key (- 1) 0
      in if result = - 1 then 0 else result)"


subsection \<open>Valid sketches, sequences of increments, true counts\<close>

text \<open>A width is a power of two when it is \<open>2\<^sup>n\<close> for some \<open>n < 64\<close>.\<close>

definition is_power_of_two :: "u64 \<Rightarrow> bool" where
  "is_power_of_two w = (\<exists>n \<in> {..<64}. w = 2 ^ n)"

text \<open>
  A sketch as the constructor builds it from a power-of-two width and a positive depth
  whose product fits \<open>std::size_t\<close>: the table has \<open>width * depth\<close> cells.
\<close>

definition cms_valid :: "count_min_sketch \<Rightarrow> bool" where
  "cms_valid s \<longleftrightarrow>
     is_power_of_two (cms_width s) \<and> cms_depth s \<noteq> 0 \<and>
     unat (cms_width s) * unat (cms_depth s) < 2 ^ 64 \<and>
     length (cms_table s) = unat (cms_width s) * unat (cms_depth s)"

text \<open>The row numbers \<open>0 \<dots> depth - 1\<close>.\<close>

definition rows :: "count_min_sketch \<Rightarrow> u64 list" where
  "rows s = map of_nat [0..<unat (cms_depth s)]"

text \<open>No counter addressed by \<open>increment(key, count)\<close> overflows 64 bits.\<close>

definition increment_fits :: "count_min_sketch \<Rightarrow> string \<Rightarrow> u64 \<Rightarrow> bool" where
  "increment_fits s key count =
     (\<forall>i \<in> set (rows s). unat (cms_table s ! cell_index s key i) + unat count < 2 ^ 64)"

text \<open>A sequence of \<open>increment(key, count)\<close> calls, and that none of them overflows.\<close>

fun increments :: "count_min_sketch \<Rightarrow> (string \<times> u64) list \<Rightarrow> count_min_sketch" where
  "increments s [] = s"
| "increments s ((key, count) # ops) = increments (increment s key count) ops"

fun no_counter_overflow :: "count_min_sketch \<Rightarrow> (string \<times> u64) list \<Rightarrow> bool" where
  "no_counter_overflow s [] = True"
| "no_counter_overflow s ((key, count) # ops) =
     (increment_fits s key count \<and> no_counter_overflow (increment s key count) ops)"

text \<open>The true count of \<open>k\<close>: the sum of the counts incremented for \<open>k\<close>.\<close>

fun true_count :: "(string \<times> u64) list \<Rightarrow> string \<Rightarrow> nat" where
  "true_count [] k = 0"
| "true_count ((key, count) # ops) k = (if key = k then unat count else 0) + true_count ops k"

text \<open>Every counter addressed by a key is at least \<open>cnt\<close> of that key.\<close>

definition dominates :: "count_min_sketch \<Rightarrow> (string \<Rightarrow> nat) \<Rightarrow> bool" where
  "dominates s cnt \<longleftrightarrow>
     (\<forall>k r. r < cms_depth s \<longrightarrow> cnt k \<le> unat (cms_table s ! cell_index s k r))"

subsection \<open>The table indices stay in range and address one cell per row\<close>

lemma power_of_two_nonzero: "is_power_of_two w \<Longrightarrow> w \<noteq> 0"
  by (auto simp: is_power_of_two_def)

lemma rows_iff: "i \<in> set (rows s) \<longleftrightarrow> i < cms_depth s"
proof
  assume "i \<in> set (rows s)"
  then obtain n where n: "n < unat (cms_depth s)" "i = of_nat n"
    by (auto simp: rows_def)
  then have "unat i = n"
    by (metis le_unat_uoi less_imp_le)
  with n show "i < cms_depth s"
    by (simp add: word_less_nat_alt)
next
  assume "i < cms_depth s"
  then have "unat i < unat (cms_depth s)"
    by (simp add: word_less_nat_alt)
  then have "of_nat (unat i) \<in> set (rows s)"
    unfolding rows_def by (metis atLeast0LessThan imageI lessThan_iff set_map set_upt)
  then show "i \<in> set (rows s)" by simp
qed

lemma cell_offset_less:
  assumes "w \<noteq> (0::u64)"
  shows "unat (h AND (w - 1)) < unat w"
proof -
  have "h AND (w - 1) \<le> w - 1"
    by (rule word_and_le1)
  then have "unat (h AND (w - 1)) \<le> unat (w - 1)"
    by (simp add: word_le_nat_alt)
  also have "unat (w - 1) = unat w - 1"
    using assms by (rule unat_minus_one)
  finally have "unat (h AND (w - 1)) \<le> unat w - 1" .
  moreover have "0 < unat w"
    using assms by (simp add: unat_gt_0)
  ultimately show ?thesis by linarith
qed

lemma mult_row_bound:
  fixes i w d off :: nat
  assumes "i < d" "off < w"
  shows "i * w + off < w * d"
proof -
  have "i * w + off < i * w + w" using assms by simp
  also have "\<dots> = (Suc i) * w" by simp
  also have "\<dots> \<le> d * w" using assms by (intro mult_le_mono1) simp
  finally show ?thesis by (simp add: mult.commute)
qed

lemma cell_index_nat:
  assumes "cms_valid s" "i < cms_depth s"
  shows "cell_index s key i =
           unat i * unat (cms_width s) + unat (hash s key i AND (cms_width s - 1))"
proof -
  let ?w = "cms_width s" and ?off = "hash s key i AND (cms_width s - 1)"
  have w: "?w \<noteq> 0" using assms(1) by (simp add: cms_valid_def power_of_two_nonzero)
  have off: "unat ?off < unat ?w" using w by (rule cell_offset_less)
  have i: "unat i < unat (cms_depth s)" using assms(2) by (simp add: word_less_nat_alt)
  have bound: "unat i * unat ?w + unat ?off < 2 ^ 64"
    using mult_row_bound [OF i off] assms(1) by (simp add: cms_valid_def)
  then have "unat i * unat ?w < 2 ^ LENGTH(64)" by simp
  then have m: "unat (i * ?w) = unat i * unat ?w"
    by (simp only: unat_mult_lem [THEN iffD1])
  with bound have "unat (i * ?w) + unat ?off < 2 ^ LENGTH(64)" by simp
  then have "unat (i * ?w + ?off) = unat (i * ?w) + unat ?off"
    by (simp only: unat_add_lem [THEN iffD1])
  with m show ?thesis by (simp add: cell_index_def)
qed

lemma cms_index_in_range:
  assumes "cms_valid s" "i < cms_depth s"
  shows "cell_index s key i < length (cms_table s)"
proof -
  have w: "cms_width s \<noteq> 0" using assms(1) by (simp add: cms_valid_def power_of_two_nonzero)
  have i: "unat i < unat (cms_depth s)" using assms(2) by (simp add: word_less_nat_alt)
  have "length (cms_table s) = unat (cms_width s) * unat (cms_depth s)"
    using assms(1) by (simp add: cms_valid_def)
  then show ?thesis
    using mult_row_bound [OF i cell_offset_less [OF w], of "hash s key i"]
    by (simp only: cell_index_nat [OF assms])
qed

lemma cell_index_row:
  assumes "cms_valid s" "i < cms_depth s"
  shows "cell_index s key i div unat (cms_width s) = unat i"
proof -
  have w: "cms_width s \<noteq> 0" using assms(1) by (simp add: cms_valid_def power_of_two_nonzero)
  have "(unat i * unat (cms_width s) + unat (hash s key i AND (cms_width s - 1))) div unat (cms_width s) = unat i"
    using cell_offset_less [OF w, of "hash s key i"] by simp
  then show ?thesis
    by (simp only: cell_index_nat [OF assms])
qed

lemma cell_index_same_row:
  assumes "cms_valid s" "i < cms_depth s" "j < cms_depth s"
    and "cell_index s key i = cell_index s key' j"
  shows "i = j"
proof -
  have "unat i = unat j"
    using cell_index_row [OF assms(1,2), of key] cell_index_row [OF assms(1,3), of key'] assms(4)
    by simp
  then show ?thesis by (simp only: word_unat_eq_iff)
qed


lemma cell_index_table_update [simp]:
  "cell_index (s\<lparr>cms_table := t\<rparr>) key i = cell_index s key i"
  by (simp add: cell_index_def hash_def)

lemma cms_valid_table_update:
  "cms_valid s \<Longrightarrow> length t = length (cms_table s) \<Longrightarrow> cms_valid (s\<lparr>cms_table := t\<rparr>)"
  by (simp add: cms_valid_def)

lemma succ_le_iff_less: "i < (d::u64) \<Longrightarrow> i + 1 \<le> r \<longleftrightarrow> i < r"
  by (simp add: word_le_nat_alt word_less_nat_alt unat_succ_less Suc_le_eq)

lemma le_iff_eq_or_succ_le: "i < (d::u64) \<Longrightarrow> i \<le> r \<longleftrightarrow> r = i \<or> i + 1 \<le> r"
  by (auto simp: succ_le_iff_less)

lemma increment_loop_table:
  assumes "cms_valid s" "j < length (cms_table s)"
  shows "cms_table (increment_loop s key c i) ! j =
           (if \<exists>r. i \<le> r \<and> r < cms_depth s \<and> j = cell_index s key r
            then cms_table s ! j + c else cms_table s ! j)"
  using assms
proof (induction s key c i rule: increment_loop.induct)
  case (1 s key c i)
  show ?case
  proof (cases "i < cms_depth s")
    case False
    then have none: "\<not> (\<exists>r. i \<le> r \<and> r < cms_depth s \<and> j = cell_index s key r)"
      by auto
    have "increment_loop s key c i = s"
      using False by (subst increment_loop.simps) simp
    then show ?thesis
      using none by (simp only: if_False)
  next
    case True
    let ?t = "(cms_table s)[cell_index s key i := cms_table s ! cell_index s key i + c]"
    let ?s' = "s\<lparr>cms_table := ?t\<rparr>"
    have valid': "cms_valid ?s'"
      using "1.prems"(1) by (rule cms_valid_table_update) simp
    have j': "j < length (cms_table ?s')"
      using "1.prems"(2) by simp
    have IH: "cms_table (increment_loop ?s' key c (i + 1)) ! j =
                (if \<exists>r. i + 1 \<le> r \<and> r < cms_depth s \<and> j = cell_index s key r
                 then ?t ! j + c else ?t ! j)"
    proof -
      have sel: "cms_table ?s' = ?t" "cms_depth ?s' = cms_depth s"
        by simp_all
      show ?thesis
        using "1.IH" [OF True valid' j'] unfolding sel cell_index_table_update .
    qed
    have unfold: "increment_loop s key c i = increment_loop ?s' key c (i + 1)"
      using True by (subst increment_loop.simps) simp
    show ?thesis
    proof (cases "j = cell_index s key i")
      case here: True
      have none: "\<not> (\<exists>r. i + 1 \<le> r \<and> r < cms_depth s \<and> j = cell_index s key r)"
      proof
        assume "\<exists>r. i + 1 \<le> r \<and> r < cms_depth s \<and> j = cell_index s key r"
        then obtain r where r: "i + 1 \<le> r" "r < cms_depth s" "j = cell_index s key r"
          by blast
        then have "i = r"
          using cell_index_same_row [OF "1.prems"(1) True r(2), of key key] here by simp
        with r(1) True show False
          by (simp add: succ_le_iff_less)
      qed
      have some: "\<exists>r. i \<le> r \<and> r < cms_depth s \<and> j = cell_index s key r"
        using True here by auto
      have "cms_table (increment_loop s key c i) ! j = ?t ! j"
        using none by (simp only: unfold IH if_False)
      also have "?t ! j = cms_table s ! j + c"
        using here "1.prems"(2) by simp
      finally show ?thesis
        using some by (simp only: if_True)
    next
      case other: False
      have same: "(\<exists>r. i + 1 \<le> r \<and> r < cms_depth s \<and> j = cell_index s key r) \<longleftrightarrow>
            (\<exists>r. i \<le> r \<and> r < cms_depth s \<and> j = cell_index s key r)"
        using other True by (auto simp: succ_le_iff_less order_less_le)
      have "?t ! j = cms_table s ! j"
        using other by simp
      then show ?thesis
        by (simp only: unfold IH same)
    qed
  qed
qed

lemma increment_loop_fields:
  "cms_width (increment_loop s key c i) = cms_width s \<and>
   cms_depth (increment_loop s key c i) = cms_depth s \<and>
   cms_seed (increment_loop s key c i) = cms_seed s \<and>
   length (cms_table (increment_loop s key c i)) = length (cms_table s)"
proof (induction s key c i rule: increment_loop.induct)
  case (1 s key c i)
  show ?case
  proof (cases "i < cms_depth s")
    case True
    with "1.IH" show ?thesis
      by (subst (1 2 3 4) increment_loop.simps) simp
  next
    case False
    then show ?thesis
      by (subst (1 2 3 4) increment_loop.simps) simp
  qed
qed

lemma cms_valid_increment: "cms_valid s \<Longrightarrow> cms_valid (increment s key c)"
  by (simp add: cms_valid_def increment_def increment_loop_fields)

lemma cell_index_increment [simp]:
  "cell_index (increment s key c) k r = cell_index s k r"
  by (simp add: cell_index_def hash_def increment_def increment_loop_fields)

lemma increment_cell:
  assumes "cms_valid s" "r < cms_depth s"
  shows "cms_table (increment s key c) ! cell_index s k r =
           (if cell_index s k r = cell_index s key r
            then cms_table s ! cell_index s k r + c else cms_table s ! cell_index s k r)"
proof -
  have "(\<exists>r'. 0 \<le> r' \<and> r' < cms_depth s \<and> cell_index s k r = cell_index s key r') \<longleftrightarrow>
        cell_index s k r = cell_index s key r"
    using cell_index_same_row [OF assms(1,2)] assms(2) by auto
  then show ?thesis
    unfolding increment_def
    by (simp only: increment_loop_table [OF assms(1) cms_index_in_range [OF assms]])
qed


lemma cms_depth_increment [simp]: "cms_depth (increment s key c) = cms_depth s"
  by (simp add: increment_def increment_loop_fields)

lemma dominates_increment:
  assumes "cms_valid s" "dominates s cnt" "increment_fits s key c"
  shows "dominates (increment s key c) (\<lambda>k. (if key = k then unat c else 0) + cnt k)"
  unfolding dominates_def
proof (intro allI impI)
  fix k r
  assume "r < cms_depth (increment s key c)"
  then have r: "r < cms_depth s" by simp
  have old: "cnt k \<le> unat (cms_table s ! cell_index s k r)"
    using assms(2) r by (simp add: dominates_def)
  show "(if key = k then unat c else 0) + cnt k
          \<le> unat (cms_table (increment s key c) ! cell_index (increment s key c) k r)"
  proof (cases "cell_index s k r = cell_index s key r")
    case True
    have "unat (cms_table s ! cell_index s key r) + unat c < 2 ^ LENGTH(64)"
      using assms(3) r by (simp add: increment_fits_def rows_iff)
    then have fits: "unat (cms_table s ! cell_index s k r) + unat c < 2 ^ LENGTH(64)"
      by (simp only: True)
    have "cms_table (increment s key c) ! cell_index s k r = cms_table s ! cell_index s k r + c"
      by (simp only: increment_cell [OF assms(1) r] True if_True refl)
    then have "unat (cms_table (increment s key c) ! cell_index s k r) =
                 unat (cms_table s ! cell_index s k r) + unat c"
      using fits by (simp only: unat_add_lem [THEN iffD1])
    then have "unat (cms_table (increment s key c) ! cell_index (increment s key c) k r) =
                 unat (cms_table s ! cell_index s k r) + unat c"
      by (simp only: cell_index_increment)
    with old show ?thesis by simp
  next
    case False
    then have "key \<noteq> k" by auto
    have "cms_table (increment s key c) ! cell_index s k r = cms_table s ! cell_index s k r"
      using False by (simp only: increment_cell [OF assms(1) r] if_False)
    then have "unat (cms_table (increment s key c) ! cell_index (increment s key c) k r) =
                 unat (cms_table s ! cell_index s k r)"
      by (simp only: cell_index_increment)
    with old \<open>key \<noteq> k\<close> show ?thesis by simp
  qed
qed

lemma dominates_increments:
  assumes "cms_valid s" "dominates s cnt" "no_counter_overflow s ops"
  shows "dominates (increments s ops) (\<lambda>k. true_count ops k + cnt k) \<and> cms_valid (increments s ops)"
  using assms
proof (induction ops arbitrary: s cnt)
  case Nil
  then show ?case by simp
next
  case (Cons op ops)
  obtain key c where op: "op = (key, c)" by (cases op)
  have fits: "increment_fits s key c" and rest: "no_counter_overflow (increment s key c) ops"
    using Cons.prems(3) by (simp_all add: op)
  have "dominates (increments (increment s key c) ops)
          (\<lambda>k. true_count ops k + ((if key = k then unat c else 0) + cnt k)) \<and>
        cms_valid (increments (increment s key c) ops)"
    by (rule Cons.IH [OF cms_valid_increment [OF Cons.prems(1)]
          dominates_increment [OF Cons.prems(1,2) fits] rest])
  then show ?case
    by (simp add: op ac_simps)
qed

lemma estimate_loop_lower:
  assumes "\<forall>r. i \<le> r \<and> r < cms_depth s \<longrightarrow> n \<le> unat (cms_table s ! cell_index s key r)"
    and "n \<le> unat result"
  shows "n \<le> unat (estimate_loop s key result i)"
  using assms
proof (induction s key result i rule: estimate_loop.induct)
  case (1 s key result i)
  show ?case
  proof (cases "i < cms_depth s")
    case True
    have "n \<le> unat (cms_table s ! cell_index s key i)"
      using "1.prems"(1) True by simp
    with "1.prems"(2) have "n \<le> unat (min result (cms_table s ! cell_index s key i))"
      by (simp add: min_def)
    moreover have "\<forall>r. i + 1 \<le> r \<and> r < cms_depth s \<longrightarrow> n \<le> unat (cms_table s ! cell_index s key r)"
      using "1.prems"(1) le_iff_eq_or_succ_le [OF True] by blast
    ultimately have "n \<le> unat (estimate_loop s key (min result (cms_table s ! cell_index s key i)) (i + 1))"
      using "1.IH" [OF True] by blast
    with True show ?thesis
      by (subst estimate_loop.simps) simp
  next
    case False
    with "1.prems"(2) show ?thesis
      by (subst estimate_loop.simps) simp
  qed
qed

lemma estimate_loop_le_result: "estimate_loop s key result i \<le> result"
proof (induction s key result i rule: estimate_loop.induct)
  case (1 s key result i)
  show ?case
  proof (cases "i < cms_depth s")
    case True
    have "estimate_loop s key (min result (cms_table s ! cell_index s key i)) (i + 1) \<le> result"
      using "1.IH" [OF True] by (simp add: min_le_iff_disj)
    with True show ?thesis
      by (subst estimate_loop.simps) simp
  next
    case False
    then show ?thesis
      by (subst estimate_loop.simps) simp
  qed
qed

lemma estimate_loop_max:
  "estimate_loop s key result i = - 1 \<longleftrightarrow>
     result = - 1 \<and> (\<forall>r. i \<le> r \<and> r < cms_depth s \<longrightarrow> cms_table s ! cell_index s key r = - 1)"
proof (induction s key result i rule: estimate_loop.induct)
  case (1 s key result i)
  show ?case
  proof (cases "i < cms_depth s")
    case True
    have split: "(\<forall>r. i \<le> r \<and> r < cms_depth s \<longrightarrow> cms_table s ! cell_index s key r = - 1) \<longleftrightarrow>
          cms_table s ! cell_index s key i = - 1 \<and>
          (\<forall>r. i + 1 \<le> r \<and> r < cms_depth s \<longrightarrow> cms_table s ! cell_index s key r = - 1)"
      unfolding le_iff_eq_or_succ_le [OF True] using True by blast
    have m: "min result (cms_table s ! cell_index s key i) = - 1 \<longleftrightarrow>
               result = - 1 \<and> cms_table s ! cell_index s key i = - 1"
    proof
      assume a: "min result (cms_table s ! cell_index s key i) = - 1"
      have "- 1 \<le> result" "- 1 \<le> cms_table s ! cell_index s key i"
        using min.cobounded1 [of result "cms_table s ! cell_index s key i"]
          min.cobounded2 [of result "cms_table s ! cell_index s key i"]
        by (simp_all only: a)
      then show "result = - 1 \<and> cms_table s ! cell_index s key i = - 1"
        by (simp add: word_order.extremum_unique)
    qed simp
    have "estimate_loop s key result i =
            estimate_loop s key (min result (cms_table s ! cell_index s key i)) (i + 1)"
      using True by (subst estimate_loop.simps) simp
    then show ?thesis
      using "1.IH" [OF True] unfolding split m by (simp add: conj_assoc)
  next
    case False
    then have "estimate_loop s key result i = result"
      by (subst estimate_loop.simps) simp
    with False show ?thesis by auto
  qed
qed

subsection \<open>The estimate never undercounts\<close>

lemma CountMinSketch_valid:
  assumes "is_power_of_two w" "unat w * unat d < 2 ^ 64" "CountMinSketch w d seed = Inr s"
  shows "cms_valid s \<and> dominates s (\<lambda>k. 0)"
proof -
  have d: "d \<noteq> 0" and s: "s = \<lparr>cms_width = w, cms_depth = d, cms_seed = seed,
                cms_table = replicate (unat (w * d)) 0\<rparr>"
    using assms(3) by (auto simp: CountMinSketch_def split: if_splits)
  have "unat w * unat d < 2 ^ LENGTH(64)" using assms(2) by simp
  then have "unat (w * d) = unat w * unat d"
    by (simp only: unat_mult_lem [THEN iffD1])
  then show ?thesis
    using assms(1,2) d by (simp add: s cms_valid_def dominates_def)
qed

lemma increments_fields:
  "cms_depth (increments s ops) = cms_depth s \<and> cell_index (increments s ops) k r = cell_index s k r"
proof (induction ops arbitrary: s)
  case Nil
  show ?case by simp
next
  case (Cons op ops)
  then show ?case by (cases op) simp
qed

text \<open>
  The one-sided bound where the table fits.  Take the sketch the constructor returns
  for a power-of-two width and a depth with \<open>width * depth < 2\<^sup>6\<^sup>4\<close>, and any sequence of
  \<open>increment(key, count)\<close> calls in which no addressed counter overflows 64 bits.
  Then for every key \<open>k\<close> the estimate is at least the sum of the counts incremented
  for \<open>k\<close>, the one exception being the sentinel: when every counter that \<open>k\<close>
  addresses equals \<open>UINT64_MAX\<close>, \<open>estimate\<close> returns 0.
\<close>

theorem cms_estimate_one_sided:
  assumes "is_power_of_two w" "unat w * unat d < 2 ^ 64"
    and "CountMinSketch w d seed = Inr s"
    and "no_counter_overflow s ops"
  shows "true_count ops k \<le> unat (estimate (increments s ops) k) \<or>
         estimate (increments s ops) k = 0 \<and>
         list_all (\<lambda>r. cms_table (increments s ops) ! cell_index s k r = - 1) (rows s)"
proof -
  let ?s = "increments s ops"
  have start: "cms_valid s" "dominates s (\<lambda>k. 0)"
    using CountMinSketch_valid [OF assms(1-3)] by simp_all
  have dom: "dominates ?s (\<lambda>k. true_count ops k + 0)"
    using dominates_increments [OF start assms(4)] by simp
  then have rows_ge: "\<forall>r. 0 \<le> r \<and> r < cms_depth ?s \<longrightarrow>
      true_count ops k \<le> unat (cms_table ?s ! cell_index ?s k r)"
    by (simp add: dominates_def)
  show ?thesis
  proof (cases "estimate_loop ?s k (- 1) 0 = - 1")
    case True
    then have "\<forall>r. r < cms_depth ?s \<longrightarrow> cms_table ?s ! cell_index ?s k r = - 1"
      by (simp add: estimate_loop_max)
    then have "list_all (\<lambda>r. cms_table ?s ! cell_index s k r = - 1) (rows s)"
      by (simp add: list_all_iff rows_iff increments_fields)
    moreover have "estimate ?s k = 0"
      using True by (simp add: estimate_def)
    ultimately show ?thesis by blast
  next
    case False
    have "true_count ops k \<le> unat (estimate_loop ?s k (- 1) 0)"
    proof (rule estimate_loop_lower [OF rows_ge])
      have "true_count ops k \<le> unat (cms_table ?s ! cell_index ?s k 0)"
        using rows_ge start(1) by (simp add: cms_valid_def increments_fields word_neq_0_conv)
      also have "\<dots> \<le> unat (- 1 :: u64)"
        by (simp add: word_le_nat_alt [symmetric])
      finally show "true_count ops k \<le> unat (- 1 :: u64)" .
    qed
    with False show ?thesis
      by (simp add: estimate_def)
  qed
qed



text \<open>
  The theorem at work: width 4, depth 2, seed 1337; \<open>alpha\<close> is incremented by 3 and
  by 1, \<open>beta\<close> by 2.  The two keys share the counter of row 1, so the estimate of
  \<open>beta\<close> reads \<open>min 2 6\<close>.
\<close>

lemmas murmur_eval = murmurhash3_64_def murmur_body.simps murmur_block_def murmur_tail_def
  mix_k1_def mix_k2_def c1_def c2_def rotl64_def fmix64_def

lemma hash_alpha_0: "murmurhash3_64 ''alpha'' 1337 = 0x77dd11bcf05239fb"
  by (simp add: murmur_eval)
lemma hash_alpha_1: "murmurhash3_64 ''alpha'' 0x9e3779b97f4a814e = 0x9d5963f144fc5444"
  by (simp add: murmur_eval)
lemma hash_beta_0: "murmurhash3_64 ''beta'' 1337 = 0xe6dedeb2a2f3aee5"
  by (simp add: murmur_eval)
lemma hash_beta_1: "murmurhash3_64 ''beta'' 0x9e3779b97f4a814e = 0x8afb828a2f1a43bc"
  by (simp add: murmur_eval)


lemma list_update_Cons_numeral: "(x # xs)[numeral k := y] = x # xs[pred_numeral k := y]"
  by (simp add: numeral_eq_Suc)

lemma rows_2: "cms_depth s = 2 \<Longrightarrow> rows s = [0, 1]"
proof -
  assume "cms_depth s = 2"
  then have "unat (cms_depth s) = Suc (Suc 0)" by simp
  then show ?thesis
    by (simp only: rows_def upt_Suc upt_0) simp
qed

lemma cells_alpha:
  assumes "cms_width s = 4" "cms_seed s = 1337"
  shows "cell_index s ''alpha'' 0 = 3" "cell_index s ''alpha'' 1 = 4"
  using assms by (simp_all add: cell_index_def hash_def hash_alpha_0 hash_alpha_1)

lemma cells_beta:
  assumes "cms_width s = 4" "cms_seed s = 1337"
  shows "cell_index s ''beta'' 0 = 1" "cell_index s ''beta'' 1 = 4"
  using assms by (simp_all add: cell_index_def hash_def hash_beta_0 hash_beta_1)

lemma increment_2:
  assumes "cms_depth s = 2"
  shows "increment s key c = s\<lparr>cms_table :=
     ((cms_table s)[cell_index s key 0 := cms_table s ! cell_index s key 0 + c])
        [cell_index s key 1 := ((cms_table s)[cell_index s key 0 := cms_table s ! cell_index s key 0 + c]) ! cell_index s key 1 + c]\<rparr>"
  using assms
  by (simp add: increment_def increment_loop.simps [of _ _ _ 0] increment_loop.simps [of _ _ _ 1]
      increment_loop.simps [of _ _ _ 2])

lemma estimate_2:
  assumes "cms_depth s = 2"
  shows "estimate s key = (let result = min (min (- 1) (cms_table s ! cell_index s key 0)) (cms_table s ! cell_index s key 1) in if result = - 1 then 0 else result)"
  using assms
  by (simp add: estimate_def estimate_loop.simps [of _ _ _ 0] estimate_loop.simps [of _ _ _ 1]
      estimate_loop.simps [of _ _ _ 2])

theorem cms_estimate_one_sided_witness:
  "is_power_of_two 4 \<and> unat (4 :: u64) * unat (2 :: u64) < 2 ^ 64 \<and>
   CountMinSketch 4 2 1337 = Inr \<lparr>cms_width = 4, cms_depth = 2, cms_seed = 1337, cms_table = [0, 0, 0, 0, 0, 0, 0, 0]\<rparr> \<and>
   no_counter_overflow \<lparr>cms_width = 4, cms_depth = 2, cms_seed = 1337, cms_table = [0, 0, 0, 0, 0, 0, 0, 0]\<rparr>
     [(''alpha'', 3), (''beta'', 2), (''alpha'', 1)] \<and>
   true_count [(''alpha'', 3), (''beta'', 2), (''alpha'', 1)] ''beta'' = 2 \<and>
   estimate (increments \<lparr>cms_width = 4, cms_depth = 2, cms_seed = 1337, cms_table = [0, 0, 0, 0, 0, 0, 0, 0]\<rparr>
     [(''alpha'', 3), (''beta'', 2), (''alpha'', 1)]) ''beta'' = 2"
proof -
  let ?s = "\<lparr>cms_width = 4, cms_depth = 2, cms_seed = 1337, cms_table = [0, 0, 0, 0, 0, 0, 0, 0]\<rparr>"
  let ?ops = "[(''alpha'', 3 :: u64), (''beta'', 2), (''alpha'', 1)]"
  have h1: "is_power_of_two 4"
    unfolding is_power_of_two_def by (rule bexI [of _ 2]) simp_all
  have h2: "unat (4 :: u64) * unat (2 :: u64) < 2 ^ 64" by simp
  have "replicate 8 (0 :: u64) = [0, 0, 0, 0, 0, 0, 0, 0]"
    by code_simp
  then have h3: "CountMinSketch 4 2 1337 = Inr ?s"
    by (simp add: CountMinSketch_def)
  have s1: "increment ?s ''alpha'' 3 = \<lparr>cms_width = 4, cms_depth = 2, cms_seed = 1337, cms_table = [0, 0, 0, 3, 3, 0, 0, 0]\<rparr>"
    by (simp add: increment_2 cells_alpha list_update_Cons_numeral)
  have s2: "increment \<lparr>cms_width = 4, cms_depth = 2, cms_seed = 1337, cms_table = [0, 0, 0, 3, 3, 0, 0, 0]\<rparr> ''beta'' 2
              = \<lparr>cms_width = 4, cms_depth = 2, cms_seed = 1337, cms_table = [0, 2, 0, 3, 5, 0, 0, 0]\<rparr>"
    by (simp add: increment_2 cells_beta list_update_Cons_numeral)
  have s3: "increment \<lparr>cms_width = 4, cms_depth = 2, cms_seed = 1337, cms_table = [0, 2, 0, 3, 5, 0, 0, 0]\<rparr> ''alpha'' 1
              = \<lparr>cms_width = 4, cms_depth = 2, cms_seed = 1337, cms_table = [0, 2, 0, 4, 6, 0, 0, 0]\<rparr>"
    by (simp add: increment_2 cells_alpha list_update_Cons_numeral)
  have f1: "increment_fits ?s ''alpha'' 3"
    by (simp add: increment_fits_def rows_2 cells_alpha list_update_Cons_numeral)
  have f2: "increment_fits \<lparr>cms_width = 4, cms_depth = 2, cms_seed = 1337, cms_table = [0, 0, 0, 3, 3, 0, 0, 0]\<rparr> ''beta'' 2"
    by (simp add: increment_fits_def rows_2 cells_beta list_update_Cons_numeral)
  have f3: "increment_fits \<lparr>cms_width = 4, cms_depth = 2, cms_seed = 1337, cms_table = [0, 2, 0, 3, 5, 0, 0, 0]\<rparr> ''alpha'' 1"
    by (simp add: increment_fits_def rows_2 cells_alpha list_update_Cons_numeral)
  have h4: "no_counter_overflow ?s ?ops"
    using f1 f2 f3 by (simp add: s1 s2 s3)
  have run: "increments ?s ?ops = \<lparr>cms_width = 4, cms_depth = 2, cms_seed = 1337, cms_table = [0, 2, 0, 4, 6, 0, 0, 0]\<rparr>"
    by (simp add: s1 s2 s3)
  have est: "estimate (increments ?s ?ops) ''beta'' = 2"
    by (simp add: s1 s2 s3 estimate_2 cells_beta)
  have cnt: "true_count ?ops ''beta'' = 2" by simp
  show ?thesis
    using cms_estimate_one_sided [OF h1 h2 h3 h4, of "''beta''"] h1 h2 h3 h4 est cnt by blast
qed

subsection \<open>A table size that wraps around\<close>

lemma hash_alpha_7: "murmurhash3_64 ''alpha'' 7 = 0xf276fbb3f318d6bb"
  by (simp add: murmur_eval)

text \<open>
  Claim C2.  A width of \<open>2\<^sup>6\<^sup>3\<close> is a power of two and a depth of 2 is positive, so the
  sketch is valid and the constructor returns it; but the table size \<open>width * depth\<close>
  is computed in \<open>std::size_t\<close> and wraps to 0, so the table is empty.  Every counter
  that \<open>increment\<close> and \<open>estimate\<close> address lies outside the table: for the key
  \<open>alpha\<close> row 0 addresses cell \<open>0x7276fbb3f318d6bb\<close>.  The first \<open>increment\<close> writes
  outside the vector, which is undefined in the source; where \<open>width * depth\<close> fits
  64 bits the bound of the claim holds (\<open>cms_estimate_one_sided\<close>).
\<close>

theorem CountMinSketch_table_wraps:
  "is_power_of_two (2 ^ 63) \<and> (2 :: u64) \<noteq> 0 \<and> (2 ^ 63 * 2 :: u64) = 0 \<and>
   CountMinSketch (2 ^ 63) 2 7 =
     Inr \<lparr>cms_width = 2 ^ 63, cms_depth = 2, cms_seed = 7, cms_table = []\<rparr> \<and>
   cell_index \<lparr>cms_width = 2 ^ 63, cms_depth = 2, cms_seed = 7, cms_table = []\<rparr> ''alpha'' 0
     = 0x7276fbb3f318d6bb \<and>
   (\<forall>key i. \<not> cell_index \<lparr>cms_width = 2 ^ 63, cms_depth = 2, cms_seed = 7, cms_table = []\<rparr> key i
                < length (cms_table \<lparr>cms_width = 2 ^ 63, cms_depth = 2, cms_seed = 7, cms_table = []\<rparr>))"
proof -
  have pow: "is_power_of_two (2 ^ 63)"
    unfolding is_power_of_two_def by (rule bexI [of _ 63]) simp_all
  have ctor: "CountMinSketch (2 ^ 63) 2 7 =
     Inr \<lparr>cms_width = 2 ^ 63, cms_depth = 2, cms_seed = 7, cms_table = []\<rparr>"
    by (simp add: CountMinSketch_def)
  have cell: "cell_index \<lparr>cms_width = 2 ^ 63, cms_depth = 2, cms_seed = 7, cms_table = []\<rparr> ''alpha'' 0
     = 0x7276fbb3f318d6bb"
    by (simp add: cell_index_def hash_def hash_alpha_7)
  from pow ctor cell show ?thesis
    by simp
qed

subsection \<open>The constructor and a width of zero\<close>

lemma CountMinSketch_throws_iff:
  "(\<exists>e. CountMinSketch w d seed = Inl e) \<longleftrightarrow> w AND (w - 1) \<noteq> 0 \<or> d = 0"
  by (simp add: CountMinSketch_def)

text \<open>
  Claim C6.  The constructor is to throw exactly when the width is not a power of two
  or the depth is zero.  Zero is not a power of two, but \<open>0 & (0 - 1)\<close> is \<open>0\<close>, so
  the check lets a width of zero through: the constructor returns a sketch with an
  empty table.
\<close>

theorem CountMinSketch_zero_width:
  "\<not> is_power_of_two 0 \<and>
   CountMinSketch 0 1 12345 =
     Inr \<lparr>cms_width = 0, cms_depth = 1, cms_seed = 12345, cms_table = []\<rparr>"
  by (simp add: is_power_of_two_def CountMinSketch_def)



section \<open>HyperLogLog\<close>

text \<open>
  \<open>HyperLogLog\<close>: \<open>precision_\<close> is a \<open>std::uint8_t\<close>, \<open>register_count_\<close> a
  \<open>std::size_t\<close>, the registers a \<open>std::vector<std::uint8_t>\<close>.
\<close>

record hyperloglog =
  hll_precision :: u8
  hll_register_count :: u64
  hll_registers :: "u8 list"

definition HyperLogLog :: "u8 \<Rightarrow> error + hyperloglog" where
  "HyperLogLog precision =
     (if precision < 4 \<or> precision > 18 then Inl Invalid_argument
      else Inr \<lparr>hll_precision = precision,
                hll_register_count = push_bit (unat precision) 1,
                hll_registers = replicate (unat (push_bit (unat precision) 1 :: u64)) 0\<rparr>)"

text \<open>
  The loop of \<open>rho\<close>: \<open>count\<close> is a \<open>std::uint8_t\<close>, so for \<open>max_bits = 255\<close> the
  test \<open>count <= max_bits\<close> never fails and the loop need not end; the model is a
  partial function, \<open>None\<close> standing for a loop that does not return.
\<close>

partial_function (option) rho_loop :: "u64 \<Rightarrow> u8 \<Rightarrow> u8 \<Rightarrow> u8 option" where
  "rho_loop x count max_bits =
     (if count \<le> max_bits
      then (if x AND push_bit 63 1 \<noteq> 0 then Some count
            else rho_loop (push_bit 1 x) (count + 1) max_bits)
      else Some count)"

declare rho_loop.simps [code]

definition rho :: "u64 \<Rightarrow> u8 \<Rightarrow> u8 option" where
  "rho x max_bits = rho_loop x 1 max_bits"

text \<open>
  \<open>add\<close>: the index is the top \<open>precision_\<close> bits of the hash, the rank is \<open>rho\<close> of
  the hash shifted left by \<open>precision_\<close>, with \<open>max_bits = (uint8_t)(64 - precision_)\<close>.
\<close>

definition add :: "hyperloglog \<Rightarrow> string \<Rightarrow> hyperloglog option" where
  "add h v =
     (let hash_value = murmurhash3_64 v 0xadc83b19;
          index = unat (drop_bit (64 - unat (hll_precision h)) hash_value);
          remaining = push_bit (unat (hll_precision h)) hash_value
      in case rho remaining (64 - hll_precision h) of
           None \<Rightarrow> None
         | Some rank \<Rightarrow>
             Some (h\<lparr>hll_registers :=
                       (hll_registers h)[index := max (hll_registers h ! index) rank]\<rparr>))"

text \<open>A sequence of \<open>add\<close> calls.\<close>

fun adds :: "hyperloglog \<Rightarrow> string list \<Rightarrow> hyperloglog option" where
  "adds h [] = Some h"
| "adds h (v # vs) = (case add h v of None \<Rightarrow> None | Some h' \<Rightarrow> adds h' vs)"

text \<open>
  A sketch as the constructor builds it and \<open>add\<close> keeps it: a precision in \<open>[4, 18]\<close>
  and \<open>2\<^sup>p\<close> registers.
\<close>

definition hll_valid :: "hyperloglog \<Rightarrow> bool" where
  "hll_valid h \<longleftrightarrow>
     4 \<le> hll_precision h \<and> hll_precision h \<le> 18 \<and>
     hll_register_count h = 2 ^ unat (hll_precision h) \<and>
     length (hll_registers h) = 2 ^ unat (hll_precision h)"

text \<open>
  The number of leading zeros of a 64-bit word: the zero bits met from bit 63 downwards
  before the first one.
\<close>

definition leading_zeros :: "u64 \<Rightarrow> nat" where
  "leading_zeros x = length (takeWhile (\<lambda>j. \<not> bit x (63 - j)) [0..<64])"

subsection \<open>What the loop of \<open>rho\<close> computes\<close>

lemma top_bit_test: "x AND push_bit 63 1 \<noteq> 0 \<longleftrightarrow> bit (x :: u64) 63"
  unfolding push_bit_of_1 and_exp_eq_0_iff_not_bit by simp

lemma u8_of_nat_le: "a < 256 \<Longrightarrow> b < 256 \<Longrightarrow> (of_nat a :: u8) \<le> of_nat b \<longleftrightarrow> a \<le> b"
  by (simp add: word_le_nat_alt unat_of_nat)

lemma rho_loop_scan:
  assumes "j \<le> m" "m \<le> 64"
  shows "rho_loop (push_bit j x) (of_nat (Suc j)) (of_nat m) =
           Some (of_nat (Suc (j + length (takeWhile (\<lambda>i. \<not> bit x (63 - i)) [j..<m]))))"
  using assms
proof (induction "m - j" arbitrary: j)
  case 0
  then have "j = m" by simp
  have "\<not> (of_nat (Suc m) :: u8) \<le> of_nat m"
    using \<open>m \<le> 64\<close> by (simp add: u8_of_nat_le del: of_nat_Suc)
  then show ?case
    unfolding \<open>j = m\<close> by (subst rho_loop.simps) (simp del: of_nat_Suc)
next
  case (Suc d)
  then have j: "j < m" "j \<le> 63" by simp_all
  have le: "(of_nat (Suc j) :: u8) \<le> of_nat m"
    using j Suc.prems by (simp add: u8_of_nat_le del: of_nat_Suc)
  have top: "push_bit j x AND push_bit 63 1 \<noteq> 0 \<longleftrightarrow> bit x (63 - j)"
    using j unfolding top_bit_test by (simp add: bit_push_bit_iff)
  have range: "[j..<m] = j # [Suc j..<m]"
    using j by (simp add: upt_conv_Cons)
  show ?case
  proof (cases "bit x (63 - j)")
    case True
    then show ?thesis
      using le top by (subst rho_loop.simps) (simp add: range del: of_nat_Suc)
  next
    case False
    have "rho_loop (push_bit (Suc j) x) (of_nat (Suc (Suc j))) (of_nat m) =
            Some (of_nat (Suc (Suc j + length (takeWhile (\<lambda>i. \<not> bit x (63 - i)) [Suc j..<m]))))"
      using Suc.hyps(2) Suc.prems j by (intro Suc.hyps(1)) simp_all
    moreover have "push_bit 1 (push_bit j x) = push_bit (Suc j) x"
      by (simp add: push_bit_push_bit)
    moreover have "(of_nat (Suc j) :: u8) + 1 = of_nat (Suc (Suc j))"
      by simp
    ultimately show ?thesis
      using le top False by (subst rho_loop.simps) (simp add: range del: of_nat_Suc)
  qed
qed

lemma length_takeWhile_take:
  "length (takeWhile P (take m xs)) = min m (length (takeWhile P xs))"
proof (induction xs arbitrary: m)
  case Nil
  show ?case by simp
next
  case (Cons x xs)
  show ?case
    using Cons.IH by (cases m) simp_all
qed

lemma rho_eq:
  assumes "m \<le> 64"
  shows "rho x (of_nat m) = Some (of_nat (min (1 + leading_zeros x) (m + 1)))"
proof -
  have "[0..<m] = take m [0..<64]"
    using assms by simp
  then have "length (takeWhile (\<lambda>i. \<not> bit x (63 - i)) [0..<m]) = min m (leading_zeros x)"
    by (simp only: leading_zeros_def length_takeWhile_take)
  then have len: "Suc (0 + length (takeWhile (\<lambda>i. \<not> bit x (63 - i)) [0..<m])) =
                    min (1 + leading_zeros x) (m + 1)"
    by simp
  have "rho_loop (push_bit 0 x) (of_nat (Suc 0)) (of_nat m) =
          Some (of_nat (min (1 + leading_zeros x) (m + 1)))"
    using rho_loop_scan [of 0 m x] assms by (simp only: len)
  then show ?thesis
    by (simp add: rho_def)
qed


lemma hll_index_less:
  assumes "4 \<le> p" "p \<le> (18 :: u8)"
  shows "unat (drop_bit (64 - unat p) (hv :: u64)) < 2 ^ unat p"
proof -
  have p: "unat p \<le> 18"
    using assms(2) by (simp add: word_le_nat_alt)
  have "unat (drop_bit (64 - unat p) hv) = drop_bit (64 - unat p) (unat hv)"
    by (simp only: unat_drop_bit_eq)
  also have "\<dots> = unat hv div 2 ^ (64 - unat p)"
    by (simp only: drop_bit_eq_div)
  also have "\<dots> < 2 ^ unat p"
  proof -
    have "unat hv < 2 ^ 64" using unsigned_less [of hv] by simp
    also have "(2 :: nat) ^ 64 = 2 ^ unat p * 2 ^ (64 - unat p)"
      using p by (simp flip: power_add)
    finally show ?thesis
      by (simp add: less_mult_imp_div_less)
  qed
  finally show ?thesis .
qed

text \<open>The rank that \<open>add\<close> writes for a value, and the register it writes to.\<close>

definition rank_of_value :: "u8 \<Rightarrow> string \<Rightarrow> u8" where
  "rank_of_value p v =
     of_nat (min (1 + leading_zeros (push_bit (unat p) (murmurhash3_64 v 0xadc83b19))) (65 - unat p))"

definition index_of_value :: "u8 \<Rightarrow> string \<Rightarrow> nat" where
  "index_of_value p v = unat (drop_bit (64 - unat p) (murmurhash3_64 v 0xadc83b19))"

lemma add_eq:
  assumes "hll_valid h"
  shows "add h v = Some (h\<lparr>hll_registers := (hll_registers h)
           [index_of_value (hll_precision h) v :=
              max (hll_registers h ! index_of_value (hll_precision h) v)
                  (rank_of_value (hll_precision h) v)]\<rparr>)"
proof -
  let ?p = "hll_precision h"
  have p: "4 \<le> unat ?p" "unat ?p \<le> 18"
    using assms by (simp_all add: hll_valid_def word_le_nat_alt)
  then have "unat ?p \<le> unat (64 :: u8)" by simp
  then have "unat (64 - ?p) = 64 - unat ?p"
    by (simp add: unat_sub word_le_nat_alt)
  then have mb: "64 - ?p = of_nat (64 - unat ?p)"
    by (metis of_nat_unat ucast_id)
  have "64 - unat ?p + 1 = 65 - unat ?p"
    using p by simp
  then have "rho x (64 - ?p) = Some (of_nat (min (1 + leading_zeros x) (65 - unat ?p)))" for x
    using rho_eq [of "64 - unat ?p" x] unfolding mb by simp
  then show ?thesis
    by (simp add: add_def Let_def rank_of_value_def index_of_value_def)
qed

lemma hll_valid_add:
  assumes "hll_valid h"
  shows "\<exists>h'. add h v = Some h' \<and> hll_valid h' \<and> hll_precision h' = hll_precision h"
  using assms by (simp add: add_eq) (simp add: hll_valid_def)

lemma leading_zeros_le: "leading_zeros x \<le> 64"
  using length_takeWhile_le [of "\<lambda>j. \<not> bit x (63 - j)" "[0..<64]"]
  by (simp add: leading_zeros_def)

lemma rank_of_value_le:
  assumes "4 \<le> p" "p \<le> (18 :: u8)"
  shows "unat (rank_of_value p v) \<le> 65 - unat p"
proof -
  have "min (1 + leading_zeros x) (65 - unat p) \<le> 65 - unat p" for x by simp
  moreover have "min (1 + leading_zeros x) (65 - unat p) < 256" for x
    using leading_zeros_le [of x] by simp
  ultimately show ?thesis
    by (simp add: rank_of_value_def unat_of_nat)
qed


text \<open>The register update of \<open>add\<close> on the register bank alone.\<close>

definition add_registers :: "u8 \<Rightarrow> string \<Rightarrow> u8 list \<Rightarrow> u8 list" where
  "add_registers p v regs =
     regs[index_of_value p v := max (regs ! index_of_value p v) (rank_of_value p v)]"

lemma add_registers_idem: "add_registers p v (add_registers p v regs) = add_registers p v regs"
proof (cases "index_of_value p v < length regs")
  case True
  then show ?thesis by (simp add: add_registers_def)
next
  case False
  then show ?thesis by (simp add: add_registers_def list_update_beyond)
qed

lemma add_registers_commute:
  "add_registers p v (add_registers p w regs) = add_registers p w (add_registers p v regs)"
proof (cases "index_of_value p v = index_of_value p w")
  case same: True
  show ?thesis
  proof (cases "index_of_value p w < length regs")
    case True
    then show ?thesis
      by (simp add: add_registers_def same max.assoc max.left_commute max.commute)
  next
    case False
    then show ?thesis by (simp add: add_registers_def same list_update_beyond)
  qed
next
  case False
  then show ?thesis
    by (simp add: add_registers_def list_update_swap [of "index_of_value p v"])
qed

lemma add_registers_idem_on: "comp_fun_idem_on UNIV (add_registers p)"
  by (intro comp_fun_idem_on.intro comp_fun_commute_on.intro comp_fun_idem_on_axioms.intro)
    (simp_all add: fun_eq_iff add_registers_idem add_registers_commute)

lemma fold_add_registers_set:
  assumes "set vs = set ws"
  shows "fold (add_registers p) vs regs = fold (add_registers p) ws regs"
proof -
  have "fold (add_registers p) vs regs = Finite_Set.fold (add_registers p) regs (set vs)"
    by (rule comp_fun_idem_on.fold_set_fold [OF add_registers_idem_on, symmetric]) simp
  also have "\<dots> = Finite_Set.fold (add_registers p) regs (set ws)"
    by (simp only: assms)
  also have "\<dots> = fold (add_registers p) ws regs"
    by (rule comp_fun_idem_on.fold_set_fold [OF add_registers_idem_on]) simp
  finally show ?thesis .
qed

lemma adds_eq:
  assumes "hll_valid h"
  shows "adds h vs = Some (h\<lparr>hll_registers := fold (add_registers (hll_precision h)) vs (hll_registers h)\<rparr>)"
  using assms
proof (induction vs arbitrary: h)
  case Nil
  show ?case by simp
next
  case (Cons v vs)
  let ?h' = "h\<lparr>hll_registers := add_registers (hll_precision h) v (hll_registers h)\<rparr>"
  have step: "add h v = Some ?h'"
    using add_eq [OF Cons.prems] by (simp add: add_registers_def)
  have "hll_valid ?h'"
    using Cons.prems by (simp add: hll_valid_def add_registers_def)
  from Cons.IH [OF this] show ?case
    by (simp add: step)
qed

text \<open>
  Claim C10.  \<open>add\<close> has set semantics.  On every sketch the constructor and \<open>add\<close>
  can produce, adding a value a second time changes nothing, the adds of two values
  commute, and two sequences of adds over the same set of values end in the same
  sketch (and every add returns).  \<open>cardinality()\<close> reads the registers and their number
  only, so it cannot tell such sequences apart either.
\<close>

theorem hll_add_set_semantics:
  assumes "hll_valid h"
  shows "(\<exists>h'. add h v = Some h' \<and> add h' v = Some h') \<and>
         (\<exists>h1 h2 h'. add h v = Some h1 \<and> add h1 w = Some h' \<and>
                      add h w = Some h2 \<and> add h2 v = Some h') \<and>
         (set vs = set ws \<longrightarrow> (\<exists>h'. adds h vs = Some h' \<and> adds h ws = Some h'))"
proof (intro conjI impI)
  have "adds h [v, v] = adds h [v]"
    using assms by (simp only: adds_eq) (simp add: add_registers_idem)
  moreover obtain h' where "add h v = Some h'"
    using hll_valid_add [OF assms] by blast
  ultimately show "\<exists>h'. add h v = Some h' \<and> add h' v = Some h'"
    by (auto split: option.splits)
next
  obtain h1 where h1: "add h v = Some h1" "hll_valid h1"
    using hll_valid_add [OF assms] by blast
  obtain h2 where h2: "add h w = Some h2" "hll_valid h2"
    using hll_valid_add [OF assms] by blast
  obtain h' where h': "add h1 w = Some h'"
    using hll_valid_add [OF h1(2)] by blast
  have "adds h [v, w] = adds h [w, v]"
    using assms by (simp only: adds_eq) (simp add: add_registers_commute)
  then have "add h2 v = Some h'"
    using h1 h2 h' by (simp split: option.splits)
  with h1 h2 h' show "\<exists>h1 h2 h'. add h v = Some h1 \<and> add h1 w = Some h' \<and>
                      add h w = Some h2 \<and> add h2 v = Some h'"
    by blast
next
  assume "set vs = set ws"
  then show "\<exists>h'. adds h vs = Some h' \<and> adds h ws = Some h'"
    using assms by (simp add: adds_eq fold_add_registers_set [of vs ws])
qed

lemma HyperLogLog_valid: "HyperLogLog p = Inr h \<Longrightarrow> hll_valid h \<and> hll_precision h = p"
proof -
  assume ctor: "HyperLogLog p = Inr h"
  then have p: "4 \<le> p" "p \<le> 18"
    by (auto simp: HyperLogLog_def split: if_splits)
  then have "unat p \<le> 18" by (simp add: word_le_nat_alt)
  then have "(2 :: nat) ^ unat p \<le> 2 ^ 18"
    by (intro power_increasing) simp_all
  then have "(2 :: nat) ^ unat p < 2 ^ LENGTH(64)" by simp
  then have "unat (of_nat (2 ^ unat p) :: u64) = 2 ^ unat p"
    by (simp only: unat_of_nat mod_less)
  then have "unat (2 ^ unat p :: u64) = 2 ^ unat p"
    by simp
  then show ?thesis
    using ctor p by (auto simp: HyperLogLog_def hll_valid_def split: if_splits)
qed

lemma hash_zero_suffix:
  "murmurhash3_64 ''NczCu-fT9<>b[}dX'' 0xadc83b19 = 0x63c0000000000000"
  by (simp add: murmur_eval)

lemma leading_zeros_0: "leading_zeros 0 = 64"
  by (simp add: leading_zeros_def takeWhile_eq_all_conv [THEN iffD2])

lemma add_zero_suffix:
  assumes "HyperLogLog 14 = Inr h"
  shows "\<exists>h'. add h ''NczCu-fT9<>b[}dX'' = Some h' \<and> 6384 < length (hll_registers h') \<and>
           hll_registers h' ! 6384 = 51"
proof -
  have valid: "hll_valid h" and p: "hll_precision h = 14"
    using HyperLogLog_valid [OF assms] by simp_all
  have "hll_registers h = replicate (unat (push_bit (unat (14 :: u8)) 1 :: u64)) 0"
    using assms by (auto simp: HyperLogLog_def split: if_splits)
  moreover have "unat (push_bit (unat (14 :: u8)) 1 :: u64) = 16384"
    by simp
  ultimately have regs: "hll_registers h = replicate 16384 0"
    by (simp only:)
  have len: "length (hll_registers h) = 16384"
    by (simp only: regs length_replicate)
  have r0: "hll_registers h ! 6384 = 0"
    by (simp only: regs) (rule nth_replicate, simp)
  have idx: "index_of_value 14 ''NczCu-fT9<>b[}dX'' = 6384"
    by (simp add: index_of_value_def hash_zero_suffix)
  have "push_bit 14 (0x63c0000000000000 :: u64) = 0"
    by simp
  then have rk: "rank_of_value 14 ''NczCu-fT9<>b[}dX'' = 51"
    by (simp add: rank_of_value_def hash_zero_suffix leading_zeros_0 del: push_bit_numeral)
  show ?thesis
    by (simp add: add_eq [OF valid] p idx rk len r0)
qed

text \<open>
  Claim C4 as stated fails.  The loop of \<open>rho\<close> runs while \<open>count <= max_bits\<close>, so
  when none of the \<open>max_bits\<close> bits it looks at is set it returns \<open>max_bits + 1\<close>.
  The hash of the 16-byte value below ends in fifty zero bits; at precision 14 its
  register receives \<open>51 = 64 - 14 + 1\<close>.
\<close>

theorem hll_rho_cap_counterexample:
  "\<not> (\<forall>p v h h'. HyperLogLog p = Inr h \<and> add h v = Some h' \<longrightarrow>
        (\<forall>i < length (hll_registers h'). unat (hll_registers h' ! i) \<le> 64 - unat p))"
proof
  assume claim: "\<forall>p v h h'. HyperLogLog p = Inr h \<and> add h v = Some h' \<longrightarrow>
        (\<forall>i < length (hll_registers h'). unat (hll_registers h' ! i) \<le> 64 - unat p)"
  obtain h where ctor: "HyperLogLog 14 = Inr h"
    by (simp add: HyperLogLog_def)
  obtain h' where h': "add h ''NczCu-fT9<>b[}dX'' = Some h'" "6384 < length (hll_registers h')"
      "hll_registers h' ! 6384 = 51"
    using add_zero_suffix [OF ctor] by blast
  have "unat (hll_registers h' ! 6384) \<le> 64 - unat (14 :: u8)"
    using claim ctor h'(1,2) by blast
  then show False
    by (simp add: h'(3))
qed

text \<open>
  Claim C4, amended.  Take the sketch the constructor returns for a precision \<open>p\<close> (so
  \<open>p\<close> is in \<open>[4, 18]\<close>) and any sequence of adds.  The sequence returns a sketch \<open>h\<close>
  of the same precision, and on \<open>h\<close> every \<open>add(v)\<close> returns and does this: with
  \<open>hash\<close> the hash of \<open>v\<close>, \<open>index\<close> its top \<open>p\<close> bits and \<open>rank\<close> one plus the number of
  leading zeros of \<open>hash << p\<close>, capped at \<open>64 - p + 1\<close>, the rank is what \<open>rho\<close>
  returns, the index is one of the registers, and \<open>add\<close> writes \<open>max(old, rank)\<close> to
  register \<open>index\<close> and changes nothing else.  Consequently every register of \<open>h\<close> is
  at most \<open>64 - p + 1\<close>.
\<close>

theorem hll_register_cap:
  assumes "HyperLogLog p = Inr h0"
  shows "\<exists>h. adds h0 vs = Some h \<and> hll_precision h = p \<and>
           (let hash_value = murmurhash3_64 v 0xadc83b19;
                index = unat (drop_bit (64 - unat p) hash_value);
                rank = of_nat (min (1 + leading_zeros (push_bit (unat p) hash_value)) (64 - unat p + 1))
            in rho (push_bit (unat p) hash_value) (64 - p) = Some rank \<and>
               unat rank \<le> 64 - unat p + 1 \<and>
               index < length (hll_registers h) \<and>
               add h v = Some (h\<lparr>hll_registers :=
                                   (hll_registers h)[index := max (hll_registers h ! index) rank]\<rparr>)) \<and>
           list_all (\<lambda>r. unat r \<le> 64 - unat p + 1) (hll_registers h)"
proof -
  have valid: "hll_valid h0" and p: "hll_precision h0 = p"
    using HyperLogLog_valid [OF assms] by simp_all
  have pr: "4 \<le> p" "p \<le> 18"
    using valid p by (simp_all add: hll_valid_def)
  then have pn: "4 \<le> unat p" "unat p \<le> 18"
    by (simp_all add: word_le_nat_alt)
  have cap: "64 - unat p + 1 = 65 - unat p"
    using pn by simp
  have rho_p: "rho x (64 - p) = Some (of_nat (min (1 + leading_zeros x) (65 - unat p)))" for x
  proof -
    have "unat p \<le> unat (64 :: u8)" using pn by simp
    then have "unat (64 - p) = 64 - unat p"
      by (simp add: unat_sub word_le_nat_alt)
    then have mb: "64 - p = of_nat (64 - unat p)"
      by (metis of_nat_unat ucast_id)
    have "rho x (of_nat (64 - unat p)) =
            Some (of_nat (min (1 + leading_zeros x) (64 - unat p + 1)))"
      by (rule rho_eq) simp
    then show ?thesis
      by (simp only: mb cap)
  qed
  have start: "list_all (\<lambda>r. unat r \<le> 65 - unat p) (hll_registers h0)"
    using assms by (auto simp: HyperLogLog_def list_all_iff split: if_splits)
  have "list_all (\<lambda>r. unat r \<le> 65 - unat p) (fold (add_registers p) vs regs)"
    if "list_all (\<lambda>r. unat r \<le> 65 - unat p) regs" for regs
    using that
  proof (induction vs arbitrary: regs)
    case Nil
    then show ?case by simp
  next
    case (Cons v vs)
    have "unat (max a (rank_of_value p v)) \<le> 65 - unat p" if "unat a \<le> 65 - unat p" for a
      using that rank_of_value_le [OF pr, of v] by (simp add: max_def)
    then have "list_all (\<lambda>r. unat r \<le> 65 - unat p) (add_registers p v regs)"
      using Cons.prems set_update_subset_insert [of regs]
      unfolding add_registers_def list_all_iff
      by (metis insert_iff nth_mem subsetD linorder_not_less list_update_beyond)
    from Cons.IH [OF this] show ?case by simp
  qed
  from this [OF start]
  obtain h where h: "adds h0 vs = Some h"
      "list_all (\<lambda>r. unat r \<le> 65 - unat p) (hll_registers h)"
      "h = h0\<lparr>hll_registers := fold (add_registers p) vs (hll_registers h0)\<rparr>"
    by (simp add: adds_eq [OF valid] p)
  have len: "length (fold (add_registers p) ws regs) = length regs" for ws regs
    by (induction ws arbitrary: regs) (simp_all add: add_registers_def)
  have hp: "hll_precision h = p"
    by (simp add: h(3) p)
  have hvalid: "hll_valid h"
    using valid by (simp add: h(3) hll_valid_def len)
  have writes: "add h v = Some (h\<lparr>hll_registers := (hll_registers h)
           [index_of_value p v := max (hll_registers h ! index_of_value p v) (rank_of_value p v)]\<rparr>)"
    using add_eq [OF hvalid, of v] by (simp only: hp)
  have idx: "index_of_value p v < length (hll_registers h)"
    using hll_index_less [OF pr] hvalid by (simp add: index_of_value_def hll_valid_def hp)
  have rank: "unat (rank_of_value p v) \<le> 65 - unat p"
    by (rule rank_of_value_le [OF pr])
  show ?thesis
    unfolding Let_def cap
    using h(1,2) hp writes idx rank rho_p
    by (simp add: rank_of_value_def index_of_value_def)
qed


text \<open>The theorems at work at precision 4, on the values \<open>alpha\<close> and \<open>user-0\<close>.\<close>

lemma hash_alpha: "murmurhash3_64 ''alpha'' 0xadc83b19 = 0x9b3c4a38cb813f13"
  by (simp add: murmur_eval)

lemma hash_user_0: "murmurhash3_64 ''user-0'' 0xadc83b19 = 0x408639b0bf184624"
  by (simp add: murmur_eval)

lemma value_alpha: "index_of_value 4 ''alpha'' = 9" "rank_of_value 4 ''alpha'' = 1"
proof -
  show "index_of_value 4 ''alpha'' = 9"
    by (simp add: index_of_value_def hash_alpha)
  have "leading_zeros 0xb3c4a38cb813f130 = 0"
    by code_simp
  moreover have "push_bit 4 (0x9b3c4a38cb813f13 :: u64) = 0xb3c4a38cb813f130"
    by simp
  ultimately show "rank_of_value 4 ''alpha'' = 1"
    by (simp add: rank_of_value_def hash_alpha del: push_bit_numeral)
qed

lemma value_user_0: "index_of_value 4 ''user-0'' = 4" "rank_of_value 4 ''user-0'' = 5"
proof -
  show "index_of_value 4 ''user-0'' = 4"
    by (simp add: index_of_value_def hash_user_0)
  have "leading_zeros 0x08639b0bf1846240 = 4"
    by code_simp
  moreover have "push_bit 4 (0x408639b0bf184624 :: u64) = 0x08639b0bf1846240"
    by simp
  ultimately show "rank_of_value 4 ''user-0'' = 5"
    by (simp add: rank_of_value_def hash_user_0 del: push_bit_numeral)
qed

lemma HyperLogLog_4:
  "HyperLogLog 4 = Inr \<lparr>hll_precision = 4, hll_register_count = 16,
     hll_registers = [0, 0, 0, 0, 0, 0, 0, 0, 0, 0, 0, 0, 0, 0, 0, 0]\<rparr>"
proof -
  have "replicate 16 (0 :: u8) = [0, 0, 0, 0, 0, 0, 0, 0, 0, 0, 0, 0, 0, 0, 0, 0]"
    by code_simp
  then show ?thesis
    by (simp add: HyperLogLog_def)
qed

theorem hll_register_cap_witness:
  "HyperLogLog 4 = Inr \<lparr>hll_precision = 4, hll_register_count = 16,
     hll_registers = [0, 0, 0, 0, 0, 0, 0, 0, 0, 0, 0, 0, 0, 0, 0, 0]\<rparr> \<and>
   adds \<lparr>hll_precision = 4, hll_register_count = 16,
          hll_registers = [0, 0, 0, 0, 0, 0, 0, 0, 0, 0, 0, 0, 0, 0, 0, 0]\<rparr> [''alpha''] =
     Some \<lparr>hll_precision = 4, hll_register_count = 16,
            hll_registers = [0, 0, 0, 0, 0, 0, 0, 0, 0, 1, 0, 0, 0, 0, 0, 0]\<rparr> \<and>
   rho (push_bit 4 (murmurhash3_64 ''user-0'' 0xadc83b19)) (64 - 4) = Some 5 \<and>
   add \<lparr>hll_precision = 4, hll_register_count = 16,
         hll_registers = [0, 0, 0, 0, 0, 0, 0, 0, 0, 1, 0, 0, 0, 0, 0, 0]\<rparr> ''user-0'' =
     Some \<lparr>hll_precision = 4, hll_register_count = 16,
            hll_registers = [0, 0, 0, 0, 5, 0, 0, 0, 0, 1, 0, 0, 0, 0, 0, 0]\<rparr> \<and>
   list_all (\<lambda>r. unat r \<le> 64 - unat (4 :: u8) + 1) [0, 0, 0, 0, 0, 0, 0, 0, 0, 1, 0, 0, 0, 0, 0, 0 :: u8]"
proof -
  let ?h0 = "\<lparr>hll_precision = 4, hll_register_count = 16,
     hll_registers = [0, 0, 0, 0, 0, 0, 0, 0, 0, 0, 0, 0, 0, 0, 0, 0 :: u8]\<rparr>"
  let ?h1 = "\<lparr>hll_precision = 4, hll_register_count = 16,
     hll_registers = [0, 0, 0, 0, 0, 0, 0, 0, 0, 1, 0, 0, 0, 0, 0, 0 :: u8]\<rparr>"
  let ?h2 = "\<lparr>hll_precision = 4, hll_register_count = 16,
     hll_registers = [0, 0, 0, 0, 5, 0, 0, 0, 0, 1, 0, 0, 0, 0, 0, 0 :: u8]\<rparr>"
  have valid: "hll_valid ?h0"
    using HyperLogLog_valid [OF HyperLogLog_4] by simp
  have run: "adds ?h0 [''alpha''] = Some ?h1"
    by (simp only: adds_eq [OF valid])
      (simp add: add_registers_def value_alpha list_update_Cons_numeral)
  have index: "unat (drop_bit (64 - unat (4 :: u8)) (murmurhash3_64 ''user-0'' 0xadc83b19)) = 4"
    using value_user_0(1) by (simp only: index_of_value_def)
  have rank: "(of_nat (min (1 + leading_zeros (push_bit (unat (4 :: u8))
                 (murmurhash3_64 ''user-0'' 0xadc83b19))) (64 - unat (4 :: u8) + 1)) :: u8) = 5"
    using value_user_0(2) by (simp add: rank_of_value_def del: push_bit_numeral)
  obtain h where h: "adds ?h0 [''alpha''] = Some h"
      "let hash_value = murmurhash3_64 ''user-0'' 0xadc83b19;
           index = unat (drop_bit (64 - unat (4 :: u8)) hash_value);
           rank = of_nat (min (1 + leading_zeros (push_bit (unat (4 :: u8)) hash_value))
                     (64 - unat (4 :: u8) + 1))
       in rho (push_bit (unat (4 :: u8)) hash_value) (64 - 4) = Some rank \<and>
          unat rank \<le> 64 - unat (4 :: u8) + 1 \<and>
          index < length (hll_registers h) \<and>
          add h ''user-0'' = Some (h\<lparr>hll_registers :=
                                   (hll_registers h)[index := max (hll_registers h ! index) rank]\<rparr>)"
      "list_all (\<lambda>r. unat r \<le> 64 - unat (4 :: u8) + 1) (hll_registers h)"
    using hll_register_cap [OF HyperLogLog_4, of "[''alpha'']" "''user-0''"] by blast
  have h1: "h = ?h1"
    using h(1) run by simp
  have step: "rho (push_bit (unat (4 :: u8)) (murmurhash3_64 ''user-0'' 0xadc83b19)) (64 - 4) = Some 5"
      "add ?h1 ''user-0'' = Some (?h1\<lparr>hll_registers :=
           (hll_registers ?h1)[4 := max (hll_registers ?h1 ! 4) 5]\<rparr>)"
    using h(2) unfolding Let_def h1 index rank by blast+
  have rho5: "rho (push_bit 4 (murmurhash3_64 ''user-0'' 0xadc83b19)) (64 - 4) = Some 5"
    using step(1) by (simp del: push_bit_numeral)
  have add5: "add ?h1 ''user-0'' = Some ?h2"
    using step(2) by (simp add: list_update_Cons_numeral)
  have cap: "list_all (\<lambda>r. unat r \<le> 64 - unat (4 :: u8) + 1)
               [0, 0, 0, 0, 0, 0, 0, 0, 0, 1, 0, 0, 0, 0, 0, 0 :: u8]"
    using h(3) unfolding h1 by simp
  from HyperLogLog_4 run rho5 add5 cap show ?thesis
    by (intro conjI)
qed

theorem hll_add_set_semantics_witness:
  "hll_valid \<lparr>hll_precision = 4, hll_register_count = 16,
     hll_registers = [0, 0, 0, 0, 0, 0, 0, 0, 0, 0, 0, 0, 0, 0, 0, 0]\<rparr> \<and>
   set [''alpha'', ''user-0'', ''alpha''] = set [''user-0'', ''alpha''] \<and>
   adds \<lparr>hll_precision = 4, hll_register_count = 16,
     hll_registers = [0, 0, 0, 0, 0, 0, 0, 0, 0, 0, 0, 0, 0, 0, 0, 0]\<rparr>
     [''alpha'', ''user-0'', ''alpha''] =
   Some \<lparr>hll_precision = 4, hll_register_count = 16,
     hll_registers = [0, 0, 0, 0, 5, 0, 0, 0, 0, 1, 0, 0, 0, 0, 0, 0]\<rparr> \<and>
   adds \<lparr>hll_precision = 4, hll_register_count = 16,
     hll_registers = [0, 0, 0, 0, 0, 0, 0, 0, 0, 0, 0, 0, 0, 0, 0, 0]\<rparr>
     [''user-0'', ''alpha''] =
   Some \<lparr>hll_precision = 4, hll_register_count = 16,
     hll_registers = [0, 0, 0, 0, 5, 0, 0, 0, 0, 1, 0, 0, 0, 0, 0, 0]\<rparr>"
proof -
  let ?h = "\<lparr>hll_precision = 4, hll_register_count = 16,
     hll_registers = [0, 0, 0, 0, 0, 0, 0, 0, 0, 0, 0, 0, 0, 0, 0, 0 :: u8]\<rparr>"
  let ?r = "\<lparr>hll_precision = 4, hll_register_count = 16,
     hll_registers = [0, 0, 0, 0, 5, 0, 0, 0, 0, 1, 0, 0, 0, 0, 0, 0 :: u8]\<rparr>"
  have valid: "hll_valid ?h"
    using HyperLogLog_valid [OF HyperLogLog_4] by simp
  have sets: "set [''alpha'', ''user-0'', ''alpha''] = set [''user-0'', ''alpha'']"
    by auto
  have short: "adds ?h [''user-0'', ''alpha''] = Some ?r"
    by (simp only: adds_eq [OF valid])
      (simp add: add_registers_def value_alpha value_user_0 list_update_Cons_numeral)
  obtain h' where "adds ?h [''alpha'', ''user-0'', ''alpha''] = Some h'"
      "adds ?h [''user-0'', ''alpha''] = Some h'"
    using hll_add_set_semantics [OF valid, of _ _ "[''alpha'', ''user-0'', ''alpha'']"
        "[''user-0'', ''alpha'']"] sets by blast
  with short have "adds ?h [''alpha'', ''user-0'', ''alpha''] = Some ?r"
    by simp
  with valid sets short show ?thesis
    by blast
qed


section \<open>The bounded ring, used by one thread\<close>

text \<open>
  \<open>LockFreeRingBuffer<T, 0>\<close>, the runtime-sized ring.  A cell holds its sequence
  number and the storage of one \<open>T\<close>, \<open>None\<close> when no object lives there.  The
  atomics are plain fields: the model is the ring as a single thread sees it.
\<close>

record 'a cell =
  sequence :: u64
  storage :: "'a option"

record 'a ring =
  ring_size :: u64
  ring_mask :: u64
  ring_buffer :: "'a cell list"
  enqueue_pos :: u64
  dequeue_pos :: u64

text \<open>
  \<open>round_up_to_power_of_two\<close>: the loop \<open>for (i = 1; i < 64; i <<= 1)\<close> runs for
  \<open>i = 1, 2, 4, 8, 16, 32\<close>.
\<close>

definition round_up_to_power_of_two :: "u64 \<Rightarrow> u64" where
  "round_up_to_power_of_two val =
     (if val \<le> 1 then 1
      else fold (\<lambda>i v. v OR drop_bit i v) [1, 2, 4, 8, 16, 32] (val - 1) + 1)"

text \<open>The constructor: cell \<open>i\<close> starts with sequence number \<open>i\<close>.\<close>

definition LockFreeRingBuffer :: "u64 \<Rightarrow> 'a ring" where
  "LockFreeRingBuffer sz =
     (let n = round_up_to_power_of_two (if sz = 0 then 1 else sz)
      in \<lparr>ring_size = n, ring_mask = n - 1,
          ring_buffer = map (\<lambda>i. \<lparr>sequence = of_nat i, storage = None\<rparr>) [0..<unat n],
          enqueue_pos = 0, dequeue_pos = 0\<rparr>)"

text \<open>
  The \<open>for (;;)\<close> loop of \<open>emplace\<close>, entered with \<open>pos\<close>.  It returns the ring
  and the position it claimed, or no position when the ring is full.
  \<open>compare_exchange_weak\<close> succeeds when \<open>enqueue_pos_\<close> still equals \<open>pos\<close>, and
  reloads \<open>pos\<close> otherwise.  The loop has no bound: where it does not return, the
  model is \<open>None\<close>.
\<close>

partial_function (option) emplace_loop :: "'a ring \<Rightarrow> u64 \<Rightarrow> ('a ring \<times> u64 option) option" where
  "emplace_loop r pos =
     (let seq = sequence (ring_buffer r ! unat (pos AND ring_mask r));
          diff = sint (seq - pos)
      in if diff = 0
         then (if enqueue_pos r = pos then Some (r\<lparr>enqueue_pos := pos + 1\<rparr>, Some pos)
               else emplace_loop r (enqueue_pos r))
         else if diff < 0 then Some (r, None)
         else emplace_loop r (enqueue_pos r))"

declare emplace_loop.simps [code]

text \<open>\<open>push\<close>: on a claimed position the value is constructed in the cell and published.\<close>

definition push :: "'a ring \<Rightarrow> 'a \<Rightarrow> ('a ring \<times> bool) option" where
  "push r v =
     (case emplace_loop r (enqueue_pos r) of
        None \<Rightarrow> None
      | Some (r', None) \<Rightarrow> Some (r', False)
      | Some (r', Some pos) \<Rightarrow>
          Some (r'\<lparr>ring_buffer := (ring_buffer r')
                   [unat (pos AND ring_mask r') := \<lparr>sequence = pos + 1, storage = Some v\<rparr>]\<rparr>,
                True))"

partial_function (option) pop_loop :: "'a ring \<Rightarrow> u64 \<Rightarrow> ('a ring \<times> u64 option) option" where
  "pop_loop r pos =
     (let seq = sequence (ring_buffer r ! unat (pos AND ring_mask r));
          diff = sint (seq - (pos + 1))
      in if diff = 0
         then (if dequeue_pos r = pos then Some (r\<lparr>dequeue_pos := pos + 1\<rparr>, Some pos)
               else pop_loop r (dequeue_pos r))
         else if diff < 0 then Some (r, None)
         else pop_loop r (dequeue_pos r))"

declare pop_loop.simps [code]

text \<open>
  \<open>pop\<close>: the popped value stands for \<open>result\<close> and the return value \<open>true\<close>, no
  value for \<open>false\<close>.  The cell's object is destroyed and the cell is released for
  position \<open>pos + size_\<close>.
\<close>

definition pop :: "'a ring \<Rightarrow> ('a ring \<times> 'a option) option" where
  "pop r =
     (case pop_loop r (dequeue_pos r) of
        None \<Rightarrow> None
      | Some (r', None) \<Rightarrow> Some (r', None)
      | Some (r', Some pos) \<Rightarrow>
          Some (r'\<lparr>ring_buffer := (ring_buffer r')
                   [unat (pos AND ring_mask r') := \<lparr>sequence = pos + ring_size r', storage = None\<rparr>]\<rparr>,
                storage (ring_buffer r' ! unat (pos AND ring_mask r'))))"

text \<open>A run of pushes and of pops, with the values the calls return.\<close>

fun pushes :: "'a ring \<Rightarrow> 'a list \<Rightarrow> ('a ring \<times> bool list) option" where
  "pushes r [] = Some (r, [])"
| "pushes r (v # vs) =
     (case push r v of
        None \<Rightarrow> None
      | Some (r', b) \<Rightarrow>
          (case pushes r' vs of None \<Rightarrow> None | Some (r'', bs) \<Rightarrow> Some (r'', b # bs)))"

fun pops :: "'a ring \<Rightarrow> nat \<Rightarrow> ('a ring \<times> 'a option list) option" where
  "pops r 0 = Some (r, [])"
| "pops r (Suc n) =
     (case pop r of
        None \<Rightarrow> None
      | Some (r', x) \<Rightarrow>
          (case pops r' n of None \<Rightarrow> None | Some (r'', xs) \<Rightarrow> Some (r'', x # xs)))"


text \<open>
  The loop of \<open>pop\<close> spins at \<open>pos\<close>: the cell's sequence number is ahead of
  \<open>pos + 1\<close>, so \<open>pos\<close> is reloaded from \<open>dequeue_pos_\<close>, which no other thread
  changes.
\<close>

definition pop_spins :: "'a ring \<Rightarrow> u64 \<Rightarrow> bool" where
  "pop_spins r pos \<longleftrightarrow>
     pos = dequeue_pos r \<and>
     0 < sint (sequence (ring_buffer r ! unat (pos AND ring_mask r)) - (pos + 1))"

subsection \<open>The scenario of the test: capacity 8\<close>

lemma ring_capacity_8_fifo:
  "(case pushes (LockFreeRingBuffer 8) [0 :: int, 1, 2, 3, 4, 5, 6, 7, 42] of
      None \<Rightarrow> None
    | Some (r, pushed) \<Rightarrow> (case pops r 9 of None \<Rightarrow> None | Some (r', popped) \<Rightarrow> Some (pushed, popped)))
   = Some ([True, True, True, True, True, True, True, True, False],
           [Some 0, Some 1, Some 2, Some 3, Some 4, Some 5, Some 6, Some 7, None])"
  by code_simp

subsection \<open>A ring of capacity 1\<close>

lemma pop_loop_returns:
  assumes run: "pop_loop r pos = Some y"
  shows "\<not> pop_spins r pos"
proof (rule pop_loop.raw_induct [where P = "\<lambda>r pos y. \<not> pop_spins r pos", OF _ run])
  fix loop :: "'a ring \<Rightarrow> u64 \<Rightarrow> ('a ring \<times> u64 option) option" and r pos y
  assume IH: "\<And>r pos y. loop r pos = Some y \<Longrightarrow> \<not> pop_spins r pos"
    and body: "(let seq = sequence (ring_buffer r ! unat (pos AND ring_mask r));
          diff = sint (seq - (pos + 1))
      in if diff = 0
         then if dequeue_pos r = pos
              then Some (r\<lparr>dequeue_pos := pos + 1\<rparr>, Some pos)
              else loop r (dequeue_pos r)
         else if diff < 0 then Some (r, None)
              else loop r (dequeue_pos r)) = Some y"
  show "\<not> pop_spins r pos"
  proof
    assume spins: "pop_spins r pos"
    then have "loop r pos = Some y"
      using body by (simp add: pop_spins_def Let_def split: if_splits)
    then show False
      using IH spins by blast
  qed
qed

lemma pop_spins_forever:
  assumes "pop_spins r (dequeue_pos r)"
  shows "pop r = None"
proof -
  have "pop_loop r (dequeue_pos r) = None"
    using pop_loop_returns [of r "dequeue_pos r"] assms
    by (cases "pop_loop r (dequeue_pos r)") auto
  then show ?thesis
    by (simp add: pop_def)
qed

text \<open>
  Claim C7.  The scenario at capacity 8 holds (\<open>ring_capacity_8_fifo\<close>), but the ring
  is not a bounded queue at every capacity the constructor allows.  At capacity 1 the
  only cell is published with sequence number \<open>pos + 1\<close>, which is the next position
  itself: the second push finds the cell free, returns true and overwrites the item
  that was never popped.  The sequence number is then ahead of the consumer, and the
  loop of \<open>pop\<close> never returns.
\<close>

theorem ring_capacity_1_overrun:
  "push (LockFreeRingBuffer 1) (0 :: int) =
     Some (\<lparr>ring_size = 1, ring_mask = 0,
             ring_buffer = [\<lparr>sequence = 1, storage = Some 0\<rparr>],
             enqueue_pos = 1, dequeue_pos = 0\<rparr>, True) \<and>
   push \<lparr>ring_size = 1, ring_mask = 0,
         ring_buffer = [\<lparr>sequence = 1, storage = Some 0\<rparr>],
         enqueue_pos = 1, dequeue_pos = 0\<rparr> (1 :: int) =
     Some (\<lparr>ring_size = 1, ring_mask = 0,
             ring_buffer = [\<lparr>sequence = 2, storage = Some 1\<rparr>],
             enqueue_pos = 2, dequeue_pos = 0\<rparr>, True) \<and>
   pop \<lparr>ring_size = 1, ring_mask = 0,
        ring_buffer = [\<lparr>sequence = 2, storage = Some (1 :: int)\<rparr>],
        enqueue_pos = 2, dequeue_pos = 0\<rparr> = None"
proof (intro conjI)
  show "push (LockFreeRingBuffer 1) (0 :: int) =
     Some (\<lparr>ring_size = 1, ring_mask = 0,
             ring_buffer = [\<lparr>sequence = 1, storage = Some 0\<rparr>],
             enqueue_pos = 1, dequeue_pos = 0\<rparr>, True)"
    by code_simp
  show "push \<lparr>ring_size = 1, ring_mask = 0,
         ring_buffer = [\<lparr>sequence = 1, storage = Some 0\<rparr>],
         enqueue_pos = 1, dequeue_pos = 0\<rparr> (1 :: int) =
     Some (\<lparr>ring_size = 1, ring_mask = 0,
             ring_buffer = [\<lparr>sequence = 2, storage = Some 1\<rparr>],
             enqueue_pos = 2, dequeue_pos = 0\<rparr>, True)"
    by code_simp
  show "pop \<lparr>ring_size = 1, ring_mask = 0,
        ring_buffer = [\<lparr>sequence = 2, storage = Some (1 :: int)\<rparr>],
        enqueue_pos = 2, dequeue_pos = 0\<rparr> = None"
    by (rule pop_spins_forever) (simp add: pop_spins_def)
qed


section \<open>Doubles\<close>

text \<open>
  A \<open>double\<close> is a number, an infinity or a NaN (the two zeros are one number here:
  they compare equal).  The comparisons are those of IEEE 754: every comparison with
  a NaN is false.  Arithmetic on doubles rounds; the model takes the operations it
  needs as parameters and fixes nothing about their results.
\<close>

datatype cdouble = NaN | NegInf | Finite real | PosInf

fun dless :: "cdouble \<Rightarrow> cdouble \<Rightarrow> bool" where
  "dless NaN y = False"
| "dless x NaN = False"
| "dless NegInf NegInf = False"
| "dless NegInf y = True"
| "dless (Finite a) NegInf = False"
| "dless (Finite a) (Finite b) = (a < b)"
| "dless (Finite a) PosInf = True"
| "dless PosInf y = False"

definition dgreater :: "cdouble \<Rightarrow> cdouble \<Rightarrow> bool" where
  "dgreater x y = dless y x"

definition dequal :: "cdouble \<Rightarrow> cdouble \<Rightarrow> bool" where
  "dequal x y \<longleftrightarrow> x \<noteq> NaN \<and> x = y"

definition dle :: "cdouble \<Rightarrow> cdouble \<Rightarrow> bool" where
  "dle x y \<longleftrightarrow> dless x y \<or> dequal x y"

text \<open>
  The rounding operations: the conversion of an \<open>std::int64_t\<close>, division,
  multiplication, addition and \<open>std::pow\<close>.
\<close>

record arith =
  to_double :: "int \<Rightarrow> cdouble"
  fdiv :: "cdouble \<Rightarrow> cdouble \<Rightarrow> cdouble"
  fmul :: "cdouble \<Rightarrow> cdouble \<Rightarrow> cdouble"
  fadd :: "cdouble \<Rightarrow> cdouble \<Rightarrow> cdouble"
  fpow :: "cdouble \<Rightarrow> cdouble \<Rightarrow> cdouble"

section \<open>Time decay\<close>

record time_decay =
  decay_factor :: cdouble

definition TimeDecay :: "cdouble \<Rightarrow> error + time_decay" where
  "TimeDecay factor =
     (if dle factor (Finite 0) \<or> dgreater factor (Finite 1) then Inl Invalid_argument
      else Inr \<lparr>decay_factor = factor\<rparr>)"

text \<open>
  \<open>TimeDecay::apply\<close>.  The timestamps are \<open>std::int64_t\<close>; their difference is
  computed in 64 bits and wraps around where it does not fit.
\<close>

definition decay_apply :: "arith \<Rightarrow> time_decay \<Rightarrow> cdouble \<Rightarrow> i64 \<Rightarrow> i64 \<Rightarrow> cdouble" where
  "decay_apply ar d base_score last_update_timestamp current_timestamp =
     (if sint current_timestamp \<le> sint last_update_timestamp then base_score
      else let delta = to_double ar (sint (current_timestamp - last_update_timestamp));
               days = fdiv ar delta (Finite 86400)
           in if dle days (Finite 0) then base_score
              else let factor = fpow ar (decay_factor d) days
                   in fmul ar base_score factor)"

text \<open>
  Arithmetic without rounding, on numbers only: an instance of the parameters, for
  concrete runs.
\<close>

definition exact_arith :: arith where
  "exact_arith =
     \<lparr>to_double = (\<lambda>i. Finite (of_int i)),
      fdiv = (\<lambda>x y. case (x, y) of (Finite a, Finite b) \<Rightarrow> Finite (a / b) | _ \<Rightarrow> NaN),
      fmul = (\<lambda>x y. case (x, y) of (Finite a, Finite b) \<Rightarrow> Finite (a * b) | _ \<Rightarrow> NaN),
      fadd = (\<lambda>x y. case (x, y) of (Finite a, Finite b) \<Rightarrow> Finite (a + b) | _ \<Rightarrow> NaN),
      fpow = (\<lambda>x y. case (x, y) of (Finite a, Finite b) \<Rightarrow> Finite (a powr b) | _ \<Rightarrow> NaN)\<rparr>"

subsection \<open>What \<open>apply\<close> returns\<close>

lemma sint_diff_exact:
  fixes a b :: i64
  assumes "sint b < sint a" "sint a - sint b < 2 ^ 63"
  shows "sint (a - b) = sint a - sint b"
proof -
  have "- (2 ^ 63) \<le> sint a - sint b"
    using assms(1) by simp
  then show ?thesis
    using assms(2) by (simp add: sint_word_ariths signed_take_bit_int_eq_self)
qed

lemma days_positive_exact:
  "0 < i \<Longrightarrow> \<not> dle (fdiv exact_arith (to_double exact_arith i) (Finite 86400)) (Finite 0)"
  by (simp add: exact_arith_def dle_def dequal_def)

text \<open>
  Where the difference of the timestamps fits 64 bits and the day count computed from
  it is positive (as it is in the arithmetic that does not round), \<open>apply\<close> is the
  function of claim C8: \<open>s\<close> when \<open>t_now <= t_last\<close>, and
  \<open>s * decay_factor ^ ((t_now - t_last) / 86400)\<close> otherwise.
\<close>

lemma apply_formula_no_overflow:
  assumes "sint t_now - sint t_last < 2 ^ 63"
    and "sint t_last < sint t_now \<Longrightarrow>
           \<not> dle (fdiv ar (to_double ar (sint t_now - sint t_last)) (Finite 86400)) (Finite 0)"
  shows "decay_apply ar d s t_last t_now =
           (if sint t_now \<le> sint t_last then s
            else fmul ar s (fpow ar (decay_factor d)
                   (fdiv ar (to_double ar (sint t_now - sint t_last)) (Finite 86400))))"
proof (cases "sint t_now \<le> sint t_last")
  case True
  then show ?thesis by (simp add: decay_apply_def)
next
  case False
  then have lt: "sint t_last < sint t_now" by simp
  have "sint (t_now - t_last) = sint t_now - sint t_last"
    by (rule sint_diff_exact [OF lt assms(1)])
  then show ?thesis
    using False assms(2) [OF lt] by (simp add: decay_apply_def Let_def)
qed

lemma apply_formula_no_overflow_exact:
  assumes "sint t_now - sint t_last < 2 ^ 63"
  shows "decay_apply exact_arith d s t_last t_now =
           (if sint t_now \<le> sint t_last then s
            else fmul exact_arith s (fpow exact_arith (decay_factor d)
                   (fdiv exact_arith (to_double exact_arith (sint t_now - sint t_last))
                      (Finite 86400))))"
  using assms by (intro apply_formula_no_overflow days_positive_exact) simp_all

lemma apply_same_timestamp: "decay_apply ar d s t t = s"
  by (simp add: decay_apply_def)

text \<open>
  Claim C8.  With \<open>t_last = INT64_MIN\<close> and \<open>t_now = 1\<close> the claim gives
  \<open>s * decay_factor ^ ((2\<^sup>6\<^sup>3 + 1) / 86400)\<close>.  The code computes
  \<open>current_timestamp - last_update_timestamp\<close> in \<open>std::int64_t\<close>, where \<open>2\<^sup>6\<^sup>3 + 1\<close> does
  not fit: the difference wraps to \<open>- 2\<^sup>6\<^sup>3 + 1\<close>.  Whatever the arithmetic on doubles,
  \<open>apply\<close> computes its day count from this negative number; when the day count is
  \<open><= 0.0\<close> it returns \<open>s\<close> unchanged.  In the arithmetic that does not round, with
  decay factor \<open>1/2\<close> and score 1, \<open>apply\<close> returns 1 where the formula of the claim
  gives a number below 1.
\<close>

theorem apply_int64_overflow:
  "sint (- (2 ^ 63) :: i64) = - (2 ^ 63) \<and> sint (1 :: i64) = 1 \<and>
   sint (1 - (- (2 ^ 63)) :: i64) = - (2 ^ 63) + 1 \<and>
   (\<forall>ar d s. decay_apply ar d s (- (2 ^ 63)) 1 =
      (let days = fdiv ar (to_double ar (- (2 ^ 63) + 1)) (Finite 86400)
       in if dle days (Finite 0) then s else fmul ar s (fpow ar (decay_factor d) days))) \<and>
   TimeDecay (Finite (1 / 2)) = Inr \<lparr>decay_factor = Finite (1 / 2)\<rparr> \<and>
   decay_apply exact_arith \<lparr>decay_factor = Finite (1 / 2)\<rparr> (Finite 1) (- (2 ^ 63)) 1 = Finite 1 \<and>
   fmul exact_arith (Finite 1) (fpow exact_arith (Finite (1 / 2))
       (fdiv exact_arith (to_double exact_arith (sint (1 :: i64) - sint (- (2 ^ 63) :: i64)))
          (Finite 86400)))
     = Finite ((1 / 2) powr ((2 ^ 63 + 1) / 86400)) \<and>
   (1 / 2) powr ((2 ^ 63 + 1) / 86400) < (1 :: real)"
proof -
  have s1: "sint (- (2 ^ 63) :: i64) = - (2 ^ 63)" "sint (1 :: i64) = 1"
      "sint (1 - (- (2 ^ 63)) :: i64) = - (2 ^ 63) + 1"
    by simp_all
  have run: "decay_apply ar d s (- (2 ^ 63)) 1 =
      (let days = fdiv ar (to_double ar (- (2 ^ 63) + 1)) (Finite 86400)
       in if dle days (Finite 0) then s else fmul ar s (fpow ar (decay_factor d) days))"
    for ar d s
    by (simp add: decay_apply_def Let_def)
  have ctor: "TimeDecay (Finite (1 / 2)) = Inr \<lparr>decay_factor = Finite (1 / 2)\<rparr>"
    by (simp add: TimeDecay_def dle_def dequal_def dgreater_def)
  have code: "decay_apply exact_arith \<lparr>decay_factor = Finite (1 / 2)\<rparr> (Finite 1) (- (2 ^ 63)) 1
                = Finite 1"
    by (simp add: decay_apply_def exact_arith_def dle_def dequal_def)
  have claim: "fmul exact_arith (Finite 1) (fpow exact_arith (Finite (1 / 2))
       (fdiv exact_arith (to_double exact_arith (sint (1 :: i64) - sint (- (2 ^ 63) :: i64)))
          (Finite 86400)))
     = Finite ((1 / 2) powr ((2 ^ 63 + 1) / 86400))"
    by (simp add: exact_arith_def)
  have "(1 / 2 :: real) powr ((2 ^ 63 + 1) / 86400) < (1 / 2) powr 0"
    by (rule powr_less_mono') simp_all
  then have less: "(1 / 2) powr ((2 ^ 63 + 1) / 86400) < (1 :: real)"
    by simp
  from s1 run ctor code claim less show ?thesis
    by (intro conjI allI)
qed


section \<open>The indexed skip list\<close>

text \<open>
  \<open>SkipList::Node\<close>.  A \<open>Node*\<close> is an address or null (\<open>None\<close>); the nodes live in
  a heap, a partial map from addresses to nodes.
\<close>

record node =
  user_id :: string
  score :: cdouble
  last_update :: i64
  forward :: "nat option list"

type_synonym heap = "nat \<rightharpoonup> node"

text \<open>
  \<open>SkipList\<close>.  \<open>header\<close> is the address of the header node, \<open>next_node\<close> the
  address the next \<open>new Node\<close> returns (addresses are not reused), \<open>index\<close> the
  \<open>std::unordered_map\<close> from user ids to nodes.  The levels are \<open>int\<close>s between 1 and
  32, here natural numbers.  \<open>rng\<close> is the state of the random generator: the numbers
  that \<open>dist(rng_)\<close> returns from now on, in order.
\<close>

record skip_list =
  nodes :: heap
  next_node :: nat
  header :: nat
  max_levels :: nat
  probability :: cdouble
  current_level :: nat
  sl_size :: u64
  rng :: "nat \<Rightarrow> cdouble"
  index :: "string \<rightharpoonup> nat"

definition kMaxSupportedLevels :: int where
  "kMaxSupportedLevels = 32"

text \<open>The constructor; \<open>seed\<close> is the generator that \<open>std::random_device\<close> seeds.\<close>

definition SkipList :: "int \<Rightarrow> cdouble \<Rightarrow> (nat \<Rightarrow> cdouble) \<Rightarrow> error + skip_list" where
  "SkipList levels p seed =
     (if levels \<le> 0 \<or> levels > kMaxSupportedLevels then Inl Invalid_argument
      else if dle p (Finite 0) \<or> dle (Finite 1) p then Inl Invalid_argument
      else Inr \<lparr>nodes = [0 \<mapsto> \<lparr>user_id = [], score = Finite 0, last_update = 0,
                                forward = replicate (nat levels) None\<rparr>],
                next_node = 1, header = 0, max_levels = nat levels, probability = p,
                current_level = 1, sl_size = 0, rng = seed, index = Map.empty\<rparr>)"

text \<open>
  \<open>random_level\<close>: \<open>while (level < max_levels_ && dist(rng_) < probability_) ++level\<close>,
  from \<open>level\<close> on.  A number is drawn only when \<open>level < max_levels_\<close>.  The result
  is the level and the generator after the draws.
\<close>

function random_level_loop ::
    "nat \<Rightarrow> cdouble \<Rightarrow> (nat \<Rightarrow> cdouble) \<Rightarrow> nat \<Rightarrow> nat \<times> (nat \<Rightarrow> cdouble)" where
  "random_level_loop levels p g level =
     (if level < levels
      then (if dless (g 0) p then random_level_loop levels p (\<lambda>n. g (Suc n)) (Suc level)
            else (level, \<lambda>n. g (Suc n)))
      else (level, g))"
  by pat_completeness auto
termination
  by (relation "measure (\<lambda>(levels, p, g, level). levels - level)") simp_all

declare random_level_loop.simps [simp del]

definition random_level :: "skip_list \<Rightarrow> nat \<times> (nat \<Rightarrow> cdouble)" where
  "random_level s = random_level_loop (max_levels s) (probability s) (rng s) 1"

text \<open>
  Reading and writing \<open>p->forward[level]\<close>.  Through a pointer to no live node, or
  beyond the end of the vector, the behaviour is undefined: \<open>None\<close>.
\<close>

definition get_forward :: "heap \<Rightarrow> nat \<Rightarrow> nat \<Rightarrow> nat option option" where
  "get_forward h p level =
     (case h p of
        None \<Rightarrow> None
      | Some n \<Rightarrow> if level < length (forward n) then Some (forward n ! level) else None)"

definition put_forward :: "heap \<Rightarrow> nat \<Rightarrow> nat \<Rightarrow> nat option \<Rightarrow> heap option" where
  "put_forward h p level v =
     (case h p of
        None \<Rightarrow> None
      | Some n \<Rightarrow>
          if level < length (forward n) then Some (h(p \<mapsto> n\<lparr>forward := (forward n)[level := v]\<rparr>))
          else None)"

definition comes_before :: "node \<Rightarrow> cdouble \<Rightarrow> string \<Rightarrow> bool" where
  "comes_before lhs sc uid =
     (if dgreater (score lhs) sc then True
      else if dless (score lhs) sc then False
      else user_id lhs < uid)"

text \<open>
  The inner \<open>while\<close> loop of the two searches, at one level:
  \<open>while (current->forward[level] && current->forward[level] != target &&
  comes_before(current->forward[level], score, user_id)) current = current->forward[level]\<close>.
  \<open>erase\<close> runs it with its target; \<open>upsert\<close> has no target, which is the loop with a
  null \<open>target\<close>.  A loop that does not return, or that runs into undefined behaviour,
  is \<open>None\<close>.
\<close>

partial_function (option) walk ::
    "heap \<Rightarrow> nat \<Rightarrow> nat option \<Rightarrow> cdouble \<Rightarrow> string \<Rightarrow> nat \<Rightarrow> nat option" where
  "walk h level target sc uid current =
     (case get_forward h current level of
        None \<Rightarrow> None
      | Some None \<Rightarrow> Some current
      | Some (Some nxt) \<Rightarrow>
          if Some nxt = target then Some current
          else (case h nxt of
                  None \<Rightarrow> None
                | Some n \<Rightarrow>
                    if comes_before n sc uid then walk h level target sc uid nxt
                    else Some current))"

declare walk.simps [code]

text \<open>
  The outer loop \<open>for (level = current_level_ - 1; level >= 0; --level)\<close> with
  \<open>levels\<close> levels still to visit; it fills \<open>update\<close>.
\<close>

fun descend ::
    "heap \<Rightarrow> nat option \<Rightarrow> cdouble \<Rightarrow> string \<Rightarrow> nat \<Rightarrow> nat \<Rightarrow> nat option list \<Rightarrow> nat option list option" where
  "descend h target sc uid current 0 update = Some update"
| "descend h target sc uid current (Suc level) update =
     (case walk h level target sc uid current of
        None \<Rightarrow> None
      | Some c \<Rightarrow>
          if level < length update then descend h target sc uid c level (update[level := Some c])
          else None)"

text \<open>\<open>insert_node\<close>, over the levels \<open>0 \<dots> level - 1\<close>.\<close>

fun insert_levels :: "heap \<Rightarrow> nat \<Rightarrow> nat option list \<Rightarrow> nat list \<Rightarrow> heap option" where
  "insert_levels h a update [] = Some h"
| "insert_levels h a update (i # levels) =
     (if i < length update
      then (case update ! i of
              None \<Rightarrow> None
            | Some p \<Rightarrow>
                (case get_forward h p i of
                   None \<Rightarrow> None
                 | Some nxt \<Rightarrow>
                     (case put_forward h a i nxt of
                        None \<Rightarrow> None
                      | Some h1 \<Rightarrow>
                          (case put_forward h1 p i (Some a) of
                             None \<Rightarrow> None
                           | Some h2 \<Rightarrow> insert_levels h2 a update levels))))
      else None)"

definition insert_node :: "heap \<Rightarrow> nat \<Rightarrow> nat \<Rightarrow> nat option list \<Rightarrow> heap option" where
  "insert_node h a level update = insert_levels h a update [0..<level]"

text \<open>The unlinking loop of \<open>erase\<close>, over the levels of the target.\<close>

fun unlink :: "heap \<Rightarrow> nat \<Rightarrow> nat option list \<Rightarrow> nat list \<Rightarrow> bool \<Rightarrow> (heap \<times> bool) option" where
  "unlink h target update [] removed = Some (h, removed)"
| "unlink h target update (level # levels) removed =
     (if level < length update
      then (case update ! level of
              None \<Rightarrow> None
            | Some p \<Rightarrow>
                (case get_forward h p level of
                   None \<Rightarrow> None
                 | Some nxt \<Rightarrow>
                     if nxt = Some target
                     then (case get_forward h target level of
                             None \<Rightarrow> None
                           | Some after \<Rightarrow>
                               (case put_forward h p level after of
                                  None \<Rightarrow> None
                                | Some h1 \<Rightarrow> unlink h1 target update levels True))
                     else unlink h target update levels removed))
      else None)"

text \<open>
  \<open>while (current_level_ > 1 && header_->forward[current_level_ - 1] == nullptr)
  --current_level_\<close>.
\<close>

fun shrink_level :: "heap \<Rightarrow> nat \<Rightarrow> nat \<Rightarrow> nat option" where
  "shrink_level h hdr 0 = Some 0"
| "shrink_level h hdr (Suc n) =
     (if 1 < Suc n
      then (case get_forward h hdr n of
              None \<Rightarrow> None
            | Some None \<Rightarrow> shrink_level h hdr n
            | Some (Some a) \<Rightarrow> Some (Suc n))
      else Some (Suc n))"

definition find_node :: "skip_list \<Rightarrow> string \<Rightarrow> nat option" where
  "find_node s uid = index s uid"

text \<open>\<open>erase\<close> returns the list and whether it removed the node.\<close>

definition erase :: "skip_list \<Rightarrow> string \<Rightarrow> (skip_list \<times> bool) option" where
  "erase s uid =
     (case index s uid of
        None \<Rightarrow> Some (s, False)
      | Some target \<Rightarrow>
          (case nodes s target of
             None \<Rightarrow> None
           | Some t \<Rightarrow>
               (case descend (nodes s) (Some target) (score t) (user_id t) (header s)
                       (current_level s) (replicate (max_levels s) None) of
                  None \<Rightarrow> None
                | Some update \<Rightarrow>
                    (case unlink (nodes s) target update [0..<length (forward t)] False of
                       None \<Rightarrow> None
                     | Some (h1, removed) \<Rightarrow>
                         if \<not> removed then Some (s\<lparr>nodes := h1\<rparr>, False)
                         else (case shrink_level h1 (header s) (current_level s) of
                                 None \<Rightarrow> None
                               | Some level \<Rightarrow>
                                   Some (s\<lparr>nodes := h1(target := None),
                                            current_level := level,
                                            index := (index s)(uid := None),
                                            sl_size := sl_size s - 1\<rparr>, True))))))"

text \<open>
  \<open>upsert\<close>.  The result is the list and the address of the new node.
\<close>

definition upsert :: "skip_list \<Rightarrow> string \<Rightarrow> cdouble \<Rightarrow> i64 \<Rightarrow> (skip_list \<times> nat) option" where
  "upsert s uid sc timestamp =
     (case erase s uid of
        None \<Rightarrow> None
      | Some (s1, erased) \<Rightarrow>
          (let node_level = fst (random_level s1);
               a = next_node s1;
               h = (nodes s1)(a \<mapsto> \<lparr>user_id = uid, score = sc, last_update = timestamp,
                                       forward = replicate node_level None\<rparr>)
           in case descend h None sc uid (header s1) (current_level s1)
                     (replicate (max_levels s1) None) of
                None \<Rightarrow> None
              | Some update \<Rightarrow>
                  (let update' = (if current_level s1 < node_level
                                  then fold (\<lambda>level u. u[level := Some (header s1)])
                                         [current_level s1..<node_level] update
                                  else update);
                       level' = (if current_level s1 < node_level then node_level
                                 else current_level s1)
                   in case insert_node h a node_level update' of
                        None \<Rightarrow> None
                      | Some h' \<Rightarrow>
                          Some (s1\<lparr>nodes := h', next_node := Suc a,
                                   current_level := level',
                                   rng := snd (random_level s1),
                                   index := (index s1)(uid \<mapsto> a),
                                   sl_size := sl_size s1 + 1\<rparr>, a))))"

text \<open>
  \<open>clear\<close>: the nodes of level 0 are deleted, the header's pointers nulled, the index
  emptied.
\<close>

partial_function (option) delete_from :: "heap \<Rightarrow> nat option \<Rightarrow> heap option" where
  "delete_from h current =
     (case current of
        None \<Rightarrow> Some h
      | Some a \<Rightarrow>
          (case get_forward h a 0 of
             None \<Rightarrow> None
           | Some nxt \<Rightarrow> delete_from (h(a := None)) nxt))"

declare delete_from.simps [code]

definition clear :: "skip_list \<Rightarrow> skip_list option" where
  "clear s =
     (case get_forward (nodes s) (header s) 0 of
        None \<Rightarrow> None
      | Some current \<Rightarrow>
          (case delete_from (nodes s) current of
             None \<Rightarrow> None
           | Some h \<Rightarrow>
               (case h (header s) of
                  None \<Rightarrow> None
                | Some hd_node \<Rightarrow>
                    Some (s\<lparr>nodes := h(header s \<mapsto>
                                       hd_node\<lparr>forward := map (\<lambda>ptr. None) (forward hd_node)\<rparr>),
                             index := Map.empty, sl_size := 0, current_level := 1\<rparr>))))"

text \<open>The level-0 traversal of \<open>for_each\<close>, \<open>top_k\<close> and \<open>rank_of\<close>, from a pointer on.\<close>

partial_function (option) traverse :: "heap \<Rightarrow> nat option \<Rightarrow> node list option" where
  "traverse h p =
     (case p of
        None \<Rightarrow> Some []
      | Some a \<Rightarrow>
          (case h a of
             None \<Rightarrow> None
           | Some n \<Rightarrow>
               (case get_forward h a 0 of
                  None \<Rightarrow> None
                | Some nxt \<Rightarrow> Option.bind (traverse h nxt) (\<lambda>ns. Some (n # ns)))))"

declare traverse.simps [code]

definition level0 :: "skip_list \<Rightarrow> node list option" where
  "level0 s =
     (case get_forward (nodes s) (header s) 0 of
        None \<Rightarrow> None
      | Some p \<Rightarrow> traverse (nodes s) p)"

text \<open>\<open>tail\<close>: the last node of level 0, null on an empty list.\<close>

partial_function (option) last_from :: "heap \<Rightarrow> nat \<Rightarrow> nat option" where
  "last_from h current =
     (case get_forward h current 0 of
        None \<Rightarrow> None
      | Some None \<Rightarrow> Some current
      | Some (Some nxt) \<Rightarrow> last_from h nxt)"

declare last_from.simps [code]

definition tail :: "skip_list \<Rightarrow> nat option option" where
  "tail s =
     (case get_forward (nodes s) (header s) 0 of
        None \<Rightarrow> None
      | Some None \<Rightarrow> Some None
      | Some (Some current) \<Rightarrow> map_option Some (last_from (nodes s) current))"


subsection \<open>Keys and their order\<close>

definition key_before :: "cdouble \<times> string \<Rightarrow> cdouble \<times> string \<Rightarrow> bool" where
  "key_before k1 k2 \<longleftrightarrow>
     dless (fst k2) (fst k1) \<or> (\<not> dless (fst k1) (fst k2) \<and> snd k1 < snd k2)"

definition node_key :: "node \<Rightarrow> cdouble \<times> string" where
  "node_key n = (score n, user_id n)"

lemma comes_before_key: "comes_before n sc uid = key_before (node_key n) (sc, uid)"
  by (auto simp: comes_before_def key_before_def node_key_def dgreater_def)

lemma dless_irrefl: "\<not> dless x x"
  by (cases x) simp_all

lemma dless_trans: "dless x y \<Longrightarrow> dless y z \<Longrightarrow> dless x z"
  by (cases x; cases y; cases z) simp_all

lemma dless_asym: "dless x y \<Longrightarrow> \<not> dless y x"
  by (cases x; cases y) simp_all

lemma dless_total: "x \<noteq> NaN \<Longrightarrow> y \<noteq> NaN \<Longrightarrow> dless x y \<or> x = y \<or> dless y x"
  by (cases x; cases y) auto

lemma dless_not_trans:
  "x \<noteq> NaN \<Longrightarrow> y \<noteq> NaN \<Longrightarrow> z \<noteq> NaN \<Longrightarrow> \<not> dless x y \<Longrightarrow> \<not> dless y z \<Longrightarrow> \<not> dless x z"
  by (cases x; cases y; cases z) auto

lemma key_before_irrefl: "\<not> key_before k k"
  by (simp add: key_before_def dless_irrefl)

lemma key_before_asym: "key_before k1 k2 \<Longrightarrow> \<not> key_before k2 k1"
  by (auto simp: key_before_def dest: dless_asym)

lemma key_before_trans:
  assumes "fst k1 \<noteq> NaN" "fst k2 \<noteq> NaN" "fst k3 \<noteq> NaN"
    and "key_before k1 k2" "key_before k2 k3"
  shows "key_before k1 k3"
proof -
  obtain s1 u1 s2 u2 s3 u3 where k: "k1 = (s1, u1)" "k2 = (s2, u2)" "k3 = (s3, u3)"
    by (cases k1, cases k2, cases k3) blast
  have n: "s1 \<noteq> NaN" "s2 \<noteq> NaN" "s3 \<noteq> NaN"
    using assms(1-3) by (simp_all add: k)
  from assms(4,5) show ?thesis
    unfolding k key_before_def fst_conv snd_conv
    using dless_trans [of s3 s2 s1] dless_total [OF n(1,2)] dless_total [OF n(2,3)]
      dless_asym [of s1 s2] dless_asym [of s2 s3] dless_irrefl [of s1] dless_irrefl [of s2]
    by (metis order_less_trans)
qed

lemma key_before_total:
  assumes "fst k1 \<noteq> NaN" "fst k2 \<noteq> NaN" "snd k1 \<noteq> snd k2"
  shows "key_before k1 k2 \<or> key_before k2 k1"
  using assms dless_total [OF assms(1,2)]
  by (auto simp: key_before_def dless_irrefl dest: dless_asym)

subsection \<open>Cells\<close>

definition height :: "heap \<Rightarrow> nat \<Rightarrow> nat" where
  "height h a = (case h a of None \<Rightarrow> 0 | Some n \<Rightarrow> length (forward n))"

definition node_at :: "heap \<Rightarrow> nat \<Rightarrow> node" where
  "node_at h a = the (h a)"

lemma get_forward_None_iff: "get_forward h a l = None \<longleftrightarrow> \<not> l < height h a"
  by (simp add: get_forward_def height_def split: option.splits)

lemma get_forward_SomeE:
  assumes "get_forward h a l = Some q"
  obtains n where "h a = Some n" "l < length (forward n)" "q = forward n ! l"
  using assms by (auto simp: get_forward_def split: option.splits if_splits)

lemma get_forward_Some_height: "get_forward h a l = Some q \<Longrightarrow> l < height h a"
  using get_forward_None_iff [of h a l] by auto

lemma height_pos_allocated: "0 < height h a \<Longrightarrow> \<exists>n. h a = Some n"
  by (simp add: height_def split: option.splits)

lemma put_forward_None_iff: "put_forward h a l v = None \<longleftrightarrow> \<not> l < height h a"
  by (simp add: put_forward_def height_def split: option.splits)

lemma put_forward_get:
  assumes "put_forward h a l v = Some h'"
  shows "get_forward h' b k = (if b = a \<and> k = l then Some v else get_forward h b k)"
  using assms
  by (auto simp: put_forward_def get_forward_def nth_list_update split: option.splits if_splits)

lemma put_forward_height:
  assumes "put_forward h a l v = Some h'"
  shows "height h' b = height h b"
  using assms by (auto simp: put_forward_def height_def split: option.splits if_splits)

lemma put_forward_key:
  assumes "put_forward h a l v = Some h'"
  shows "node_key (node_at h' b) = node_key (node_at h b)"
    and "last_update (node_at h' b) = last_update (node_at h b)"
    and "h' b = None \<longleftrightarrow> h b = None"
  using assms
  by (auto simp: put_forward_def node_at_def node_key_def split: option.splits if_splits)

subsection \<open>Chains of nodes\<close>

text \<open>
  \<open>seg h l p as q\<close>: following the level-\<open>l\<close> pointers from \<open>p\<close> visits the nodes
  \<open>as\<close> and arrives at the pointer \<open>q\<close>.
\<close>

primrec seg :: "heap \<Rightarrow> nat \<Rightarrow> nat option \<Rightarrow> nat list \<Rightarrow> nat option \<Rightarrow> bool" where
  "seg h l p [] q \<longleftrightarrow> p = q"
| "seg h l p (a # as) q \<longleftrightarrow> p = Some a \<and> (\<exists>r. get_forward h a l = Some r \<and> seg h l r as q)"

lemma seg_append:
  "seg h l p (us @ vs) q \<longleftrightarrow> (\<exists>r. seg h l p us r \<and> seg h l r vs q)"
  by (induction us arbitrary: p) auto

lemma seg_frame:
  assumes "\<forall>a \<in> set as. get_forward h' a l = get_forward h a l"
  shows "seg h' l p as q \<longleftrightarrow> seg h l p as q"
  using assms by (induction as arbitrary: p) auto

lemma seg_functional: "seg h l p as q \<Longrightarrow> seg h l p as q' \<Longrightarrow> q = q'"
  by (induction as arbitrary: p) auto

lemma seg_last:
  assumes "seg h l p as q" "as \<noteq> []"
  shows "get_forward h (last as) l = Some q"
  using assms by (induction as arbitrary: p) (auto split: if_splits)

lemma seg_heights: "seg h l p as q \<Longrightarrow> \<forall>a \<in> set as. l < height h a"
  by (induction as arbitrary: p) (auto dest: get_forward_Some_height)


subsection \<open>The walk at one level\<close>

text \<open>Where the loop of \<open>walk\<close> goes on past a node, and where it stops at a pointer.\<close>

definition goes_on :: "heap \<Rightarrow> nat option \<Rightarrow> cdouble \<times> string \<Rightarrow> nat \<Rightarrow> bool" where
  "goes_on h target k a \<longleftrightarrow>
     Some a \<noteq> target \<and> h a \<noteq> None \<and> key_before (node_key (node_at h a)) k"

definition stops_at :: "heap \<Rightarrow> nat option \<Rightarrow> cdouble \<times> string \<Rightarrow> nat option \<Rightarrow> bool" where
  "stops_at h target k q \<longleftrightarrow>
     (case q of
        None \<Rightarrow> True
      | Some b \<Rightarrow> Some b = target \<or> (h b \<noteq> None \<and> \<not> key_before (node_key (node_at h b)) k))"

lemma walk_seg:
  assumes "get_forward h cur l = Some p" "seg h l p ys q"
    and "\<forall>a \<in> set ys. goes_on h target (sc, uid) a" "stops_at h target (sc, uid) q"
  shows "walk h l target sc uid cur = Some (last (cur # ys))"
  using assms
proof (induction ys arbitrary: cur p)
  case Nil
  then have q: "get_forward h cur l = Some q" by simp
  show ?case
  proof (cases q)
    case None
    with q show ?thesis by (subst walk.simps) simp
  next
    case (Some b)
    with Nil.prems(4) q show ?thesis
      by (subst walk.simps)
        (auto simp: stops_at_def comes_before_key node_at_def split: option.splits)
  qed
next
  case (Cons a ys)
  from Cons.prems(2) obtain r where p: "p = Some a" and r: "get_forward h a l = Some r"
    and rest: "seg h l r ys q"
    by auto
  from Cons.prems(3) have a: "Some a \<noteq> target" "h a \<noteq> None"
      "key_before (node_key (node_at h a)) (sc, uid)"
    by (simp_all add: goes_on_def)
  have "walk h l target sc uid a = Some (last (a # ys))"
    using Cons.IH [OF r rest] Cons.prems(3,4) by simp
  then show ?case
    using Cons.prems(1) p a
    by (subst walk.simps) (auto simp: comes_before_key node_at_def split: option.splits)
qed


subsection \<open>The levels of a list of nodes\<close>

text \<open>The nodes of \<open>xs\<close> that reach level \<open>l\<close>, and the list as the pointers link it.\<close>

definition lev :: "heap \<Rightarrow> nat \<Rightarrow> nat list \<Rightarrow> nat list" where
  "lev h l xs = filter (\<lambda>a. l < height h a) xs"

definition linked :: "heap \<Rightarrow> nat \<Rightarrow> nat \<Rightarrow> nat list \<Rightarrow> bool" where
  "linked h hdr levels xs \<longleftrightarrow>
     (\<forall>l < levels. \<exists>p. get_forward h hdr l = Some p \<and> seg h l p (lev h l xs) None)"

lemma lev_append [simp]: "lev h l (us @ vs) = lev h l us @ lev h l vs"
  by (simp add: lev_def)

lemma lev_subset: "set (lev h l xs) \<subseteq> set xs"
  by (auto simp: lev_def)

lemma lev_Suc_subset: "set (lev h (Suc l) xs) \<subseteq> set (lev h l xs)"
  by (auto simp: lev_def)

lemma seg_stops:
  assumes "seg h l q bs None"
    and "\<forall>b \<in> set bs. Some b = target \<or> (h b \<noteq> None \<and> \<not> key_before (node_key (node_at h b)) k)"
  shows "stops_at h target k q"
proof (cases bs)
  case Nil
  with assms(1) show ?thesis by (simp add: stops_at_def)
next
  case (Cons b bs')
  with assms show ?thesis by (auto simp: stops_at_def)
qed

lemma walk_level:
  assumes link: "linked h hdr levels (pre @ post)" and l: "l < levels"
    and pre: "\<forall>a \<in> set pre. goes_on h target (sc, uid) a"
    and post: "\<forall>b \<in> set post. Some b = target \<or>
                 (h b \<noteq> None \<and> \<not> key_before (node_key (node_at h b)) (sc, uid))"
    and cur: "cur = last (hdr # lev h (Suc l) pre)"
  shows "walk h l target sc uid cur = Some (last (hdr # lev h l pre))"
proof -
  from link l obtain p where p: "get_forward h hdr l = Some p"
    and chain: "seg h l p (lev h l pre @ lev h l post) None"
    by (auto simp: linked_def)
  have post': "\<forall>b \<in> set (lev h l post). Some b = target \<or>
                 (h b \<noteq> None \<and> \<not> key_before (node_key (node_at h b)) (sc, uid))"
    using post lev_subset [of h l post] by blast
  show ?thesis
  proof (cases "lev h (Suc l) pre = []")
    case True
    from chain obtain q where q: "seg h l p (lev h l pre) q" "seg h l q (lev h l post) None"
      by (auto simp: seg_append)
    have "walk h l target sc uid hdr = Some (last (hdr # lev h l pre))"
    proof (rule walk_seg [OF p q(1)])
      show "\<forall>a \<in> set (lev h l pre). goes_on h target (sc, uid) a"
        using pre lev_subset [of h l pre] by blast
      show "stops_at h target (sc, uid) q"
        by (rule seg_stops [OF q(2) post'])
    qed
    with True cur show ?thesis by simp
  next
    case False
    then have c: "cur = last (lev h (Suc l) pre)"
      using cur by simp
    then have "cur \<in> set (lev h (Suc l) pre)"
      using False last_in_set by blast
    then have "cur \<in> set (lev h l pre)"
      using lev_Suc_subset by blast
    then obtain us vs where split: "lev h l pre = us @ cur # vs"
      by (auto simp: in_set_conv_decomp)
    from chain have "seg h l p (us @ (cur # vs) @ lev h l post) None"
      by (simp add: split)
    then obtain r q where r: "get_forward h cur l = Some r" and vs: "seg h l r vs q"
      and q: "seg h l q (lev h l post) None"
      by (auto simp: seg_append)
    have "walk h l target sc uid cur = Some (last (cur # vs))"
    proof (rule walk_seg [OF r vs])
      have "set vs \<subseteq> set pre"
        using lev_subset [of h l pre] by (auto simp: split)
      then show "\<forall>a \<in> set vs. goes_on h target (sc, uid) a"
        using pre by blast
      show "stops_at h target (sc, uid) q"
        by (rule seg_stops [OF q post'])
    qed
    then show ?thesis
      by (simp add: split)
  qed
qed

lemma descend_update:
  assumes link: "linked h hdr levels (pre @ post)" and n: "n \<le> levels"
    and len: "length update = levels"
    and pre: "\<forall>a \<in> set pre. goes_on h target (sc, uid) a"
    and post: "\<forall>b \<in> set post. Some b = target \<or>
                 (h b \<noteq> None \<and> \<not> key_before (node_key (node_at h b)) (sc, uid))"
    and cur: "cur = last (hdr # lev h n pre)"
  shows "\<exists>update'. descend h target sc uid cur n update = Some update' \<and>
           length update' = levels \<and>
           (\<forall>l < n. update' ! l = Some (last (hdr # lev h l pre))) \<and>
           (\<forall>l. n \<le> l \<longrightarrow> update' ! l = update ! l)"
  using n len cur
proof (induction n arbitrary: cur update)
  case 0
  then show ?case by simp
next
  case (Suc n)
  let ?c = "last (hdr # lev h n pre)"
  have l: "n < levels" using Suc.prems(1) by simp
  have step: "walk h n target sc uid cur = Some ?c"
    by (rule walk_level [OF link l pre post Suc.prems(3)])
  have "\<exists>update'. descend h target sc uid ?c n (update[n := Some ?c]) = Some update' \<and>
           length update' = levels \<and>
           (\<forall>l < n. update' ! l = Some (last (hdr # lev h l pre))) \<and>
           (\<forall>l. n \<le> l \<longrightarrow> update' ! l = (update[n := Some ?c]) ! l)"
    using Suc.prems(1,2) by (intro Suc.IH) simp_all
  then obtain update' where u: "descend h target sc uid ?c n (update[n := Some ?c]) = Some update'"
      "length update' = levels" "\<forall>l < n. update' ! l = Some (last (hdr # lev h l pre))"
      "\<forall>l. n \<le> l \<longrightarrow> update' ! l = (update[n := Some ?c]) ! l"
    by blast
  have "update' ! n = Some ?c"
    using u(4) l Suc.prems(2) by simp
  with u(3) have low: "\<forall>l < Suc n. update' ! l = Some (last (hdr # lev h l pre))"
    by (auto simp: less_Suc_eq)
  have high: "\<forall>l. Suc n \<le> l \<longrightarrow> update' ! l = update ! l"
    using u(4) by auto
  show ?case
    using step l Suc.prems(2) u(1,2) low high by simp
qed


subsection \<open>Splicing a node in\<close>

lemma seg_redirect_last:
  assumes "seg h l p us q" "us \<noteq> []" "distinct us"
    and "\<forall>b \<in> set us. b \<noteq> last us \<longrightarrow> get_forward h' b l = get_forward h b l"
    and "get_forward h' (last us) l = Some q'"
  shows "seg h' l p us q'"
  using assms
proof (induction us arbitrary: p)
  case Nil
  then show ?case by simp
next
  case (Cons c us)
  show ?case
  proof (cases "us = []")
    case True
    with Cons.prems show ?thesis by simp
  next
    case False
    from Cons.prems(1) obtain r where p: "p = Some c" and r: "get_forward h c l = Some r"
      and rest: "seg h l r us q"
      by auto
    have "c \<noteq> last us"
      using Cons.prems(3) False last_in_set by fastforce
    then have c: "get_forward h' c l = Some r"
      using Cons.prems(4) False r by simp
    have "seg h' l r us q'"
      using Cons.prems False by (intro Cons.IH [OF rest]) auto
    with p c show ?thesis by simp
  qed
qed

text \<open>Two heaps with the same nodes but for the pointers.\<close>

definition same_nodes :: "heap \<Rightarrow> heap \<Rightarrow> bool" where
  "same_nodes h h' \<longleftrightarrow>
     (\<forall>b. height h' b = height h b \<and> (h' b = None \<longleftrightarrow> h b = None) \<and>
          node_key (node_at h' b) = node_key (node_at h b) \<and>
          last_update (node_at h' b) = last_update (node_at h b))"

lemma same_nodes_allocated: "same_nodes h h' \<Longrightarrow> h' b = None \<longleftrightarrow> h b = None"
  by (simp add: same_nodes_def)

lemma same_nodes_refl [simp]: "same_nodes h h"
  by (simp add: same_nodes_def)

lemma same_nodes_trans: "same_nodes h h1 \<Longrightarrow> same_nodes h1 h2 \<Longrightarrow> same_nodes h h2"
  by (simp add: same_nodes_def)

lemma same_nodes_put: "put_forward h a l v = Some h' \<Longrightarrow> same_nodes h h'"
  by (simp add: same_nodes_def put_forward_height put_forward_key)

lemma insert_level_step:
  assumes chain: "get_forward h hdr k = Some p" "seg h k p (A @ B) None"
    and dist: "distinct (A @ B)" "hdr \<notin> set (A @ B)" "a \<notin> set (A @ B)" "a \<noteq> hdr"
    and ha: "k < height h a"
  shows "\<exists>nxt h1 h2. get_forward h (last (hdr # A)) k = Some nxt \<and>
           put_forward h a k nxt = Some h1 \<and> put_forward h1 (last (hdr # A)) k (Some a) = Some h2 \<and>
           (\<exists>p'. get_forward h2 hdr k = Some p' \<and> seg h2 k p' (A @ [a] @ B) None) \<and>
           (\<forall>b l. l \<noteq> k \<longrightarrow> get_forward h2 b l = get_forward h b l) \<and>
           same_nodes h h2"
proof -
  let ?pk = "last (hdr # A)"
  from chain(2) obtain q where q: "seg h k p A q" "seg h k q B None"
    by (auto simp: seg_append)
  have nxt: "get_forward h ?pk k = Some q"
  proof (cases "A = []")
    case True
    with q(1) chain(1) show ?thesis by simp
  next
    case False
    with seg_last [OF q(1)] show ?thesis by simp
  qed
  obtain h1 where h1: "put_forward h a k q = Some h1"
    using ha put_forward_None_iff [of h a k q] by auto
  have "k < height h1 ?pk"
    using get_forward_Some_height [OF nxt] put_forward_height [OF h1] by simp
  then obtain h2 where h2: "put_forward h1 ?pk k (Some a) = Some h2"
    using put_forward_None_iff [of h1 ?pk k "Some a"] by auto
  have pk_a: "?pk \<noteq> a"
    using dist(3,4) by (cases "A = []") (auto dest: last_in_set)
  have get2: "get_forward h2 b l =
      (if b = ?pk \<and> l = k then Some (Some a) else if b = a \<and> l = k then Some q
       else get_forward h b l)" for b l
    by (simp add: put_forward_get [OF h2] put_forward_get [OF h1])
  have pk_B: "?pk \<notin> set B"
    using dist(1,2) by (cases "A = []") (auto dest: last_in_set)
  have B: "seg h2 k q B None"
    using q(2) pk_B dist(3) by (subst seg_frame [where h = h]) (auto simp: get2)
  have a: "seg h2 k (Some a) ([a] @ B) None"
    using B pk_a by (simp add: get2)
  have "\<exists>p'. get_forward h2 hdr k = Some p' \<and> seg h2 k p' A (Some a)"
  proof (cases "A = []")
    case True
    then show ?thesis by (simp add: get2)
  next
    case False
    have "seg h2 k p A (Some a)"
    proof (rule seg_redirect_last [OF q(1) False])
      show "distinct A" using dist(1) by simp
      show "\<forall>b \<in> set A. b \<noteq> last A \<longrightarrow> get_forward h2 b k = get_forward h b k"
        using dist(3) False by (auto simp: get2)
      show "get_forward h2 (last A) k = Some (Some a)"
        using False by (simp add: get2)
    qed
    moreover have "hdr \<noteq> last A"
      using dist(2) False last_in_set by fastforce
    ultimately show ?thesis
      using chain(1) dist(4) False by (auto simp: get2)
  qed
  then have "\<exists>p'. get_forward h2 hdr k = Some p' \<and> seg h2 k p' (A @ [a] @ B) None"
    using a by (auto simp: seg_append)
  moreover have "\<forall>b l. l \<noteq> k \<longrightarrow> get_forward h2 b l = get_forward h b l"
    by (simp add: get2)
  moreover have "same_nodes h h2"
    using same_nodes_trans [OF same_nodes_put [OF h1] same_nodes_put [OF h2]] .
  ultimately show ?thesis
    using nxt h1 h2 by blast
qed


lemma insert_levels_linked:
  assumes "k \<le> NL" "NL \<le> length update"
    and upd: "\<forall>l. k \<le> l \<and> l < NL \<longrightarrow> update ! l = Some (last (hdr # A l))"
    and dist: "\<forall>l. distinct (A l @ B l) \<and> hdr \<notin> set (A l @ B l) \<and> a \<notin> set (A l @ B l)"
      "a \<noteq> hdr"
    and ha: "NL \<le> height h a"
    and inv: "\<forall>l < MX. \<exists>p. get_forward h hdr l = Some p \<and>
                seg h l p (A l @ (if l < k then [a] else []) @ B l) None"
    and "NL \<le> MX"
  shows "\<exists>h'. insert_levels h a update [k..<NL] = Some h' \<and> same_nodes h h' \<and>
           (\<forall>l < MX. \<exists>p. get_forward h' hdr l = Some p \<and>
                seg h' l p (A l @ (if l < NL then [a] else []) @ B l) None)"
  using assms(1) upd ha inv
proof (induction "NL - k" arbitrary: k h)
  case 0
  then have "k = NL" by simp
  then show ?case
    using "0.prems"(4) by auto
next
  case (Suc d)
  then have k: "k < NL" by simp
  then have kMX: "k < MX" using assms(8) by simp
  from Suc.prems(4) kMX obtain p where p: "get_forward h hdr k = Some p"
    and chain: "seg h k p (A k @ B k) None"
    by fastforce
  have dk: "distinct (A k @ B k)" "hdr \<notin> set (A k @ B k)" "a \<notin> set (A k @ B k)"
    using dist(1) by blast+
  have "k < height h a" using k Suc.prems(3) by simp
  from insert_level_step [OF p chain dk dist(2) this]
  obtain nxt h1 h2 where step: "get_forward h (last (hdr # A k)) k = Some nxt"
      "put_forward h a k nxt = Some h1"
      "put_forward h1 (last (hdr # A k)) k (Some a) = Some h2"
    and new: "\<exists>p'. get_forward h2 hdr k = Some p' \<and> seg h2 k p' (A k @ [a] @ B k) None"
    and frame: "\<forall>b l. l \<noteq> k \<longrightarrow> get_forward h2 b l = get_forward h b l"
    and same: "same_nodes h h2"
    by blast
  have inv2: "\<forall>l < MX. \<exists>p. get_forward h2 hdr l = Some p \<and>
                seg h2 l p (A l @ (if l < Suc k then [a] else []) @ B l) None"
  proof (intro allI impI)
    fix l assume l: "l < MX"
    show "\<exists>p. get_forward h2 hdr l = Some p \<and>
                seg h2 l p (A l @ (if l < Suc k then [a] else []) @ B l) None"
    proof (cases "l = k")
      case True
      with new show ?thesis by simp
    next
      case False
      from Suc.prems(4) l obtain q where q: "get_forward h hdr l = Some q"
          "seg h l q (A l @ (if l < k then [a] else []) @ B l) None"
        by blast
      have "seg h2 l q (A l @ (if l < k then [a] else []) @ B l) None"
        using q(2) frame False by (subst seg_frame [where h = h]) auto
      moreover have "(l < Suc k) = (l < k)"
        using False by auto
      ultimately show ?thesis
        using q(1) frame False by auto
    qed
  qed
  have "\<exists>h'. insert_levels h2 a update [Suc k..<NL] = Some h' \<and> same_nodes h2 h' \<and>
           (\<forall>l < MX. \<exists>p. get_forward h' hdr l = Some p \<and>
                seg h' l p (A l @ (if l < NL then [a] else []) @ B l) None)"
  proof (rule Suc.hyps(1))
    show "d = NL - Suc k" using Suc.hyps(2) by simp
    show "Suc k \<le> NL" using k by simp
    show "\<forall>l. Suc k \<le> l \<and> l < NL \<longrightarrow> update ! l = Some (last (hdr # A l))"
      using Suc.prems(2) by simp
    show "NL \<le> height h2 a"
      using Suc.prems(3) same by (simp add: same_nodes_def)
    show "\<forall>l < MX. \<exists>p. get_forward h2 hdr l = Some p \<and>
                seg h2 l p (A l @ (if l < Suc k then [a] else []) @ B l) None"
      by (rule inv2)
  qed
  then obtain h' where h': "insert_levels h2 a update [Suc k..<NL] = Some h'"
      "same_nodes h2 h'"
      "\<forall>l < MX. \<exists>p. get_forward h' hdr l = Some p \<and>
                seg h' l p (A l @ (if l < NL then [a] else []) @ B l) None"
    by blast
  have range: "[k..<NL] = k # [Suc k..<NL]"
    using k by (simp add: upt_conv_Cons)
  have uk: "update ! k = Some (last (hdr # A k))" "k < length update"
    using Suc.prems(2) k assms(2) by simp_all
  have "insert_levels h a update [k..<NL] = Some h'"
    unfolding range using uk step h'(1) by simp
  then show ?case
    using h'(3) same_nodes_trans [OF same h'(2)] by blast
qed


subsection \<open>Splicing a node out\<close>

lemma unlink_level_step:
  assumes chain: "get_forward h hdr k = Some p" "seg h k p (A @ [t] @ B) None"
    and dist: "distinct (A @ [t] @ B)" "hdr \<notin> set (A @ [t] @ B)"
  shows "\<exists>after h1. get_forward h (last (hdr # A)) k = Some (Some t) \<and>
           get_forward h t k = Some after \<and>
           put_forward h (last (hdr # A)) k after = Some h1 \<and>
           (\<exists>p'. get_forward h1 hdr k = Some p' \<and> seg h1 k p' (A @ B) None) \<and>
           (\<forall>b l. l \<noteq> k \<longrightarrow> get_forward h1 b l = get_forward h b l) \<and>
           same_nodes h h1"
proof -
  let ?pk = "last (hdr # A)"
  from chain(2) obtain q where A: "seg h k p A (Some t)" and t: "get_forward h t k = Some q"
    and B: "seg h k q B None"
    by (auto simp: seg_append)
  have pk: "get_forward h ?pk k = Some (Some t)"
  proof (cases "A = []")
    case True
    with A chain(1) show ?thesis by simp
  next
    case False
    with seg_last [OF A] show ?thesis by simp
  qed
  obtain h1 where h1: "put_forward h ?pk k q = Some h1"
    using get_forward_Some_height [OF pk] put_forward_None_iff [of h ?pk k q] by auto
  have get1: "get_forward h1 b l = (if b = ?pk \<and> l = k then Some q else get_forward h b l)"
    for b l
    by (simp add: put_forward_get [OF h1])
  have pk_B: "?pk \<notin> set B"
    using dist by (cases "A = []") (auto dest: last_in_set)
  have B1: "seg h1 k q B None"
    using B pk_B by (subst seg_frame [where h = h]) (auto simp: get1)
  have "\<exists>p'. get_forward h1 hdr k = Some p' \<and> seg h1 k p' A q"
  proof (cases "A = []")
    case True
    then show ?thesis by (simp add: get1)
  next
    case False
    have "seg h1 k p A q"
    proof (rule seg_redirect_last [OF A False])
      show "distinct A" using dist(1) by simp
      show "\<forall>b \<in> set A. b \<noteq> last A \<longrightarrow> get_forward h1 b k = get_forward h b k"
        using False by (auto simp: get1)
      show "get_forward h1 (last A) k = Some q"
        using False by (simp add: get1)
    qed
    moreover have "hdr \<noteq> last A"
      using dist(2) False last_in_set by fastforce
    ultimately show ?thesis
      using chain(1) False by (auto simp: get1)
  qed
  then have "\<exists>p'. get_forward h1 hdr k = Some p' \<and> seg h1 k p' (A @ B) None"
    using B1 by (auto simp: seg_append)
  moreover have "\<forall>b l. l \<noteq> k \<longrightarrow> get_forward h1 b l = get_forward h b l"
    by (simp add: get1)
  ultimately show ?thesis
    using pk t h1 same_nodes_put [OF h1] by blast
qed

lemma unlink_linked:
  assumes "k \<le> HT" "HT \<le> length update" "HT \<le> MX"
    and upd: "\<forall>l. k \<le> l \<and> l < HT \<longrightarrow> update ! l = Some (last (hdr # A l))"
    and dist: "\<forall>l. distinct (A l @ [t] @ B l) \<and> hdr \<notin> set (A l @ [t] @ B l)"
    and inv: "\<forall>l < MX. \<exists>p. get_forward h hdr l = Some p \<and>
                seg h l p (A l @ (if k \<le> l \<and> l < HT then [t] else []) @ B l) None"
  shows "\<exists>h'. unlink h t update [k..<HT] removed = Some (h', removed \<or> k < HT) \<and>
           same_nodes h h' \<and>
           (\<forall>l < MX. \<exists>p. get_forward h' hdr l = Some p \<and> seg h' l p (A l @ B l) None)"
  using assms(1) upd inv
proof (induction "HT - k" arbitrary: k h removed)
  case 0
  then have "k = HT" by simp
  have "(if HT \<le> l \<and> l < HT then [t] else []) = []" for l
    by auto
  then show ?case
    using "0.prems"(3) unfolding \<open>k = HT\<close> by auto
next
  case (Suc d)
  then have k: "k < HT" by simp
  then have kMX: "k < MX" using assms(3) by simp
  from Suc.prems(3) kMX k obtain p where p: "get_forward h hdr k = Some p"
    and chain: "seg h k p (A k @ [t] @ B k) None"
    by fastforce
  have dk: "distinct (A k @ [t] @ B k)" "hdr \<notin> set (A k @ [t] @ B k)"
    using dist by blast+
  from unlink_level_step [OF p chain dk]
  obtain after h1 where step: "get_forward h (last (hdr # A k)) k = Some (Some t)"
      "get_forward h t k = Some after"
      "put_forward h (last (hdr # A k)) k after = Some h1"
    and new: "\<exists>p'. get_forward h1 hdr k = Some p' \<and> seg h1 k p' (A k @ B k) None"
    and frame: "\<forall>b l. l \<noteq> k \<longrightarrow> get_forward h1 b l = get_forward h b l"
    and same: "same_nodes h h1"
    by blast
  have inv1: "\<forall>l < MX. \<exists>p. get_forward h1 hdr l = Some p \<and>
                seg h1 l p (A l @ (if Suc k \<le> l \<and> l < HT then [t] else []) @ B l) None"
  proof (intro allI impI)
    fix l assume l: "l < MX"
    show "\<exists>p. get_forward h1 hdr l = Some p \<and>
                seg h1 l p (A l @ (if Suc k \<le> l \<and> l < HT then [t] else []) @ B l) None"
    proof (cases "l = k")
      case True
      with new show ?thesis by simp
    next
      case False
      from Suc.prems(3) l obtain q where q: "get_forward h hdr l = Some q"
          "seg h l q (A l @ (if k \<le> l \<and> l < HT then [t] else []) @ B l) None"
        by blast
      have "seg h1 l q (A l @ (if k \<le> l \<and> l < HT then [t] else []) @ B l) None"
        using q(2) frame False by (subst seg_frame [where h = h]) auto
      moreover have "(Suc k \<le> l \<and> l < HT) = (k \<le> l \<and> l < HT)"
        using False by auto
      ultimately show ?thesis
        using q(1) frame False by auto
    qed
  qed
  have "\<exists>h'. unlink h1 t update [Suc k..<HT] True = Some (h', True \<or> Suc k < HT) \<and>
           same_nodes h1 h' \<and>
           (\<forall>l < MX. \<exists>p. get_forward h' hdr l = Some p \<and> seg h' l p (A l @ B l) None)"
  proof (rule Suc.hyps(1))
    show "d = HT - Suc k" using Suc.hyps(2) by simp
    show "Suc k \<le> HT" using k by simp
    show "\<forall>l. Suc k \<le> l \<and> l < HT \<longrightarrow> update ! l = Some (last (hdr # A l))"
      using Suc.prems(2) by simp
    show "\<forall>l < MX. \<exists>p. get_forward h1 hdr l = Some p \<and>
                seg h1 l p (A l @ (if Suc k \<le> l \<and> l < HT then [t] else []) @ B l) None"
      by (rule inv1)
  qed
  then obtain h' where h': "unlink h1 t update [Suc k..<HT] True = Some (h', True)"
      "same_nodes h1 h'"
      "\<forall>l < MX. \<exists>p. get_forward h' hdr l = Some p \<and> seg h' l p (A l @ B l) None"
    by auto
  have range: "[k..<HT] = k # [Suc k..<HT]"
    using k by (simp add: upt_conv_Cons)
  have uk: "update ! k = Some (last (hdr # A k))" "k < length update"
    using Suc.prems(2) k assms(2) by simp_all
  have "unlink h t update [k..<HT] removed = Some (h', True)"
    unfolding range using uk step h'(1) by simp
  then show ?case
    using k h'(3) same_nodes_trans [OF same h'(2)] by auto
qed


subsection \<open>Well-formed lists\<close>

text \<open>What is stored for a node: the user, the score and the time of the update.\<close>

definition entry :: "node \<Rightarrow> string \<times> cdouble \<times> i64" where
  "entry n = (user_id n, score n, last_update n)"

definition entries :: "heap \<Rightarrow> nat list \<Rightarrow> (string \<times> cdouble \<times> i64) list" where
  "entries h xs = map (\<lambda>a. entry (node_at h a)) xs"

text \<open>
  \<open>well_formed s xs\<close>: the list \<open>s\<close> holds the nodes \<open>xs\<close>, in this order.  Every level is
  the chain of the nodes that reach it, the nodes are in key order and none has a NaN
  score, the index knows exactly these nodes, and the size is their number.
\<close>

definition well_formed :: "skip_list \<Rightarrow> nat list \<Rightarrow> bool" where
  "well_formed s xs \<longleftrightarrow>
     height (nodes s) (header s) = max_levels s \<and>
     1 \<le> current_level s \<and> current_level s \<le> max_levels s \<and>
     header s < next_node s \<and>
     (\<forall>a. nodes s a \<noteq> None \<longrightarrow> a < next_node s) \<and>
     header s \<notin> set xs \<and> distinct xs \<and>
     (\<forall>a \<in> set xs. 1 \<le> height (nodes s) a \<and> height (nodes s) a \<le> current_level s) \<and>
     linked (nodes s) (header s) (max_levels s) xs \<and>
     sorted_wrt (\<lambda>a b. key_before (node_key (node_at (nodes s) a))
                                  (node_key (node_at (nodes s) b))) xs \<and>
     (\<forall>a \<in> set xs. score (node_at (nodes s) a) \<noteq> NaN) \<and>
     (\<forall>u a. index s u = Some a \<longleftrightarrow> a \<in> set xs \<and> user_id (node_at (nodes s) a) = u) \<and>
     sl_size s = of_nat (length xs)"

lemma sorted_wrt_dropWhile:
  assumes "sorted_wrt R xs"
    and "\<And>a b. a \<in> set xs \<Longrightarrow> b \<in> set xs \<Longrightarrow> R a b \<Longrightarrow> P b \<Longrightarrow> P a"
  shows "\<forall>b \<in> set (dropWhile P xs). \<not> P b"
  using assms
proof (induction xs)
  case Nil
  show ?case by simp
next
  case (Cons x xs)
  show ?case
  proof (cases "P x")
    case True
    have "\<forall>b \<in> set (dropWhile P xs). \<not> P b"
    proof (rule Cons.IH)
      show "sorted_wrt R xs" using Cons.prems(1) by simp
      show "\<And>a b. a \<in> set xs \<Longrightarrow> b \<in> set xs \<Longrightarrow> R a b \<Longrightarrow> P b \<Longrightarrow> P a"
        using Cons.prems(2) by (meson list.set_intros(2))
    qed
    with True show ?thesis by simp
  next
    case False
    have "\<not> P b" if "b \<in> set xs" for b
      using Cons.prems(1) Cons.prems(2) [of x b] that False by auto
    with False show ?thesis by auto
  qed
qed

lemma shrink_level_spec:
  assumes "n \<le> height h hdr"
  shows "\<exists>m. shrink_level h hdr n = Some m \<and> m \<le> n \<and> (1 \<le> n \<longrightarrow> 1 \<le> m) \<and>
           (\<forall>l. m \<le> l \<and> l < n \<longrightarrow> get_forward h hdr l = Some None) \<and>
           (1 < m \<longrightarrow> (\<exists>a. get_forward h hdr (m - 1) = Some (Some a)))"
  using assms
proof (induction n)
  case 0
  show ?case by simp
next
  case (Suc n)
  show ?case
  proof (cases "1 < Suc n")
    case False
    then show ?thesis by simp
  next
    case True
    have "n < height h hdr" using Suc.prems by simp
    then obtain q where q: "get_forward h hdr n = Some q"
      using get_forward_None_iff [of h hdr n] by auto
    show ?thesis
    proof (cases q)
      case (Some a)
      with q True show ?thesis by auto
    next
      case None
      from Suc.IH Suc.prems obtain m where m: "shrink_level h hdr n = Some m" "m \<le> n"
          "1 \<le> n \<longrightarrow> 1 \<le> m" "\<forall>l. m \<le> l \<and> l < n \<longrightarrow> get_forward h hdr l = Some None"
          "1 < m \<longrightarrow> (\<exists>a. get_forward h hdr (m - 1) = Some (Some a))"
        by auto
      have "\<forall>l. m \<le> l \<and> l < Suc n \<longrightarrow> get_forward h hdr l = Some None"
        using m(4) q None by (auto simp: less_Suc_eq)
      with m True q None show ?thesis by auto
    qed
  qed
qed

lemma fold_fill:
  "length (fold (\<lambda>level u. u[level := v]) [i..<j] u) = length u \<and>
   (\<forall>l < length u. fold (\<lambda>level u. u[level := v]) [i..<j] u ! l =
          (if i \<le> l \<and> l < j then v else u ! l))"
proof (induction "j - i" arbitrary: i u)
  case 0
  then show ?case by auto
next
  case (Suc d)
  then have i: "i < j" by simp
  have IH: "length (fold (\<lambda>level u. u[level := v]) [Suc i..<j] (u[i := v])) = length (u[i := v]) \<and>
   (\<forall>l < length (u[i := v]). fold (\<lambda>level u. u[level := v]) [Suc i..<j] (u[i := v]) ! l =
          (if Suc i \<le> l \<and> l < j then v else u[i := v] ! l))"
    using Suc.hyps(2) by (intro Suc.hyps(1)) simp
  show ?case
    using i IH by (auto simp: upt_conv_Cons nth_list_update)
qed


subsection \<open>\<open>erase\<close> on a well-formed list\<close>

lemma entry_eq:
  "node_key n = node_key m \<Longrightarrow> last_update n = last_update m \<Longrightarrow> entry n = entry m"
  by (simp add: entry_def node_key_def)

lemma lev_same_heights:
  "\<forall>a \<in> set xs. height h' a = height h a \<Longrightarrow> lev h' l xs = lev h l xs"
  by (auto simp: lev_def intro: filter_cong)

lemma lev_single: "lev h l [t] = (if l < height h t then [t] else [])"
  by (simp add: lev_def)

lemma erase_absent:
  assumes "index s uid = None"
  shows "erase s uid = Some (s, False)"
  using assms by (simp add: erase_def)

lemma erase_present:
  assumes wf: "well_formed s xs" and idx: "index s uid = Some t"
  shows "\<exists>s'. erase s uid = Some (s', True) \<and> well_formed s' (remove1 t xs) \<and>
           entries (nodes s') (remove1 t xs) = filter (\<lambda>e. fst e \<noteq> uid) (entries (nodes s) xs) \<and>
           max_levels s' = max_levels s \<and> header s' = header s \<and>
           probability s' = probability s \<and> index s' uid = None"
proof -
  let ?h = "nodes s" and ?hdr = "header s" and ?MX = "max_levels s" and ?CL = "current_level s"
  let ?key = "\<lambda>a. node_key (node_at ?h a)"
  from wf have hdr_h: "height ?h ?hdr = ?MX" and cl: "1 \<le> ?CL" "?CL \<le> ?MX"
    and alloc: "?hdr < next_node s" "\<forall>a. ?h a \<noteq> None \<longrightarrow> a < next_node s"
    and hdr_out: "?hdr \<notin> set xs" and dist: "distinct xs"
    and heights: "\<forall>a \<in> set xs. 1 \<le> height ?h a \<and> height ?h a \<le> ?CL"
    and link: "linked ?h ?hdr ?MX xs"
    and sorted: "sorted_wrt (\<lambda>a b. key_before (?key a) (?key b)) xs"
    and nan: "\<forall>a \<in> set xs. score (node_at ?h a) \<noteq> NaN"
    and index: "\<forall>u a. index s u = Some a \<longleftrightarrow> a \<in> set xs \<and> user_id (node_at ?h a) = u"
    and size: "sl_size s = of_nat (length xs)"
    by (simp_all add: well_formed_def)
  from index idx have t_in: "t \<in> set xs" and t_uid: "user_id (node_at ?h t) = uid"
    by auto
  from t_in obtain pre post where xs: "xs = pre @ t # post"
    by (auto simp: in_set_conv_decomp)
  with dist have t_out: "t \<notin> set pre" "t \<notin> set post" and dist': "distinct (pre @ post)"
    by auto
  have rem: "remove1 t xs = pre @ post"
    using t_out by (simp add: xs remove1_append)
  from heights t_in have ht: "1 \<le> height ?h t" "height ?h t \<le> ?CL"
    by auto
  then obtain tn where tn: "?h t = Some tn"
    using height_pos_allocated [of ?h t] by auto
  then have HT: "length (forward tn) = height ?h t" and tnode: "node_at ?h t = tn"
    by (simp_all add: height_def node_at_def)
  have tkey: "(score tn, user_id tn) = ?key t"
    by (simp add: tnode node_key_def)
  have allocated: "?h a \<noteq> None" if "a \<in> set xs" for a
    using heights that height_pos_allocated [of ?h a] by fastforce
  \<comment> \<open>the search\<close>
  have pre_on: "\<forall>a \<in> set pre. goes_on ?h (Some t) (score tn, user_id tn) a"
    using sorted t_out allocated unfolding tkey
    by (auto simp: xs goes_on_def sorted_wrt_append)
  have post_stop: "\<forall>b \<in> set (t # post). Some b = Some t \<or>
       (?h b \<noteq> None \<and> \<not> key_before (?key b) (score tn, user_id tn))"
    using sorted allocated unfolding tkey
    by (auto simp: xs sorted_wrt_append dest: key_before_asym)
  have "\<not> ?CL < height ?h a" if "a \<in> set pre" for a
    using heights that by (simp add: xs not_less)
  then have top_empty: "lev ?h ?CL pre = []"
    by (simp add: lev_def filter_empty_conv)
  obtain update where upd: "descend ?h (Some t) (score tn) (user_id tn) ?hdr ?CL
        (replicate ?MX None) = Some update"
      "length update = ?MX"
      "\<forall>l < ?CL. update ! l = Some (last (?hdr # lev ?h l pre))"
    using descend_update [OF link [unfolded xs] cl(2) _ pre_on post_stop, of "replicate ?MX None" ?hdr]
      top_empty by auto
  \<comment> \<open>the unlinking\<close>
  have "\<exists>h'. unlink ?h t update [0..<height ?h t] False = Some (h', False \<or> 0 < height ?h t) \<and>
           same_nodes ?h h' \<and>
           (\<forall>l < ?MX. \<exists>p. get_forward h' ?hdr l = Some p \<and>
                seg h' l p (lev ?h l pre @ lev ?h l post) None)"
  proof (rule unlink_linked)
    show "0 \<le> height ?h t" by simp
    show "height ?h t \<le> length update" using ht cl upd(2) by simp
    show "height ?h t \<le> ?MX" using ht cl by simp
    show "\<forall>l. 0 \<le> l \<and> l < height ?h t \<longrightarrow> update ! l = Some (last (?hdr # lev ?h l pre))"
      using upd(3) ht by simp
    show "\<forall>l. distinct (lev ?h l pre @ [t] @ lev ?h l post) \<and>
              ?hdr \<notin> set (lev ?h l pre @ [t] @ lev ?h l post)"
      using dist hdr_out by (auto simp: xs lev_def)
    show "\<forall>l < ?MX. \<exists>p. get_forward ?h ?hdr l = Some p \<and>
            seg ?h l p (lev ?h l pre @ (if 0 \<le> l \<and> l < height ?h t then [t] else []) @ lev ?h l post)
              None"
    proof -
      have "lev ?h l xs =
              lev ?h l pre @ (if 0 \<le> l \<and> l < height ?h t then [t] else []) @ lev ?h l post"
        for l
        by (simp add: xs lev_def)
      then show ?thesis
        using link unfolding linked_def by metis
    qed
  qed
  then obtain h' where h': "unlink ?h t update [0..<height ?h t] False = Some (h', True)"
      "same_nodes ?h h'"
      "\<forall>l < ?MX. \<exists>p. get_forward h' ?hdr l = Some p \<and>
                seg h' l p (lev ?h l pre @ lev ?h l post) None"
    using ht by auto
  \<comment> \<open>the levels left empty\<close>
  have "?CL \<le> height h' ?hdr"
    using h'(2) hdr_h cl by (simp add: same_nodes_def)
  from shrink_level_spec [OF this] obtain m where m: "shrink_level h' ?hdr ?CL = Some m"
      "m \<le> ?CL" "1 \<le> m" "\<forall>l. m \<le> l \<and> l < ?CL \<longrightarrow> get_forward h' ?hdr l = Some None"
    using cl by auto
  let ?h'' = "h'(t := None)"
  let ?s' = "s\<lparr>nodes := ?h'', current_level := m, index := (index s)(uid := None),
                sl_size := sl_size s - 1\<rparr>"
  have run: "erase s uid = Some (?s', True)"
    by (simp add: erase_def idx tn upd(1) HT h'(1) m(1))
  \<comment> \<open>the list that is left\<close>
  have frame: "get_forward ?h'' a l = get_forward h' a l" "height ?h'' a = height ?h a"
      "node_key (node_at ?h'' a) = ?key a" "last_update (node_at ?h'' a) = last_update (node_at ?h a)"
    if "a \<noteq> t" for a l
    using that h'(2) by (simp_all add: get_forward_def height_def node_at_def same_nodes_def)
  have hdr_t: "?hdr \<noteq> t" using hdr_out t_in by auto
  have others: "a \<noteq> t" if "a \<in> set (pre @ post)" for a
    using that t_out by auto
  have lev'': "lev ?h'' l pre = lev ?h l pre" "lev ?h'' l post = lev ?h l post" for l
    using lev_same_heights [of pre ?h'' ?h l] lev_same_heights [of post ?h'' ?h l]
      others frame(2) by simp_all
  have link'': "linked ?h'' ?hdr ?MX (pre @ post)"
    unfolding linked_def
  proof (intro allI impI)
    fix l assume "l < ?MX"
    with h'(3) obtain p where p: "get_forward h' ?hdr l = Some p"
        "seg h' l p (lev ?h l pre @ lev ?h l post) None"
      by blast
    have "set (lev ?h l pre @ lev ?h l post) \<subseteq> set (pre @ post)"
      using lev_subset [of ?h l pre] lev_subset [of ?h l post] by auto
    then have "seg ?h'' l p (lev ?h l pre @ lev ?h l post) None"
      using p(2) others frame(1) by (subst seg_frame [where h = h']) auto
    then show "\<exists>p. get_forward ?h'' ?hdr l = Some p \<and> seg ?h'' l p (lev ?h'' l (pre @ post)) None"
      using p(1) frame(1) [OF hdr_t] by (auto simp: lev'')
  qed
  have low: "height ?h a \<le> m" if "a \<in> set (pre @ post)" for a
  proof (rule ccontr)
    assume "\<not> height ?h a \<le> m"
    then have lvl: "m < height ?h a" by simp
    have "height ?h a \<le> ?CL" using heights that by (auto simp: xs)
    with lvl have "m < ?CL" by simp
    then have none: "get_forward h' ?hdr m = Some None" using m(4) by simp
    have "m < ?MX" using \<open>m < ?CL\<close> cl by simp
    with h'(3) none have "seg h' m None (lev ?h m pre @ lev ?h m post) None"
      by fastforce
    moreover have "a \<in> set (lev ?h m pre @ lev ?h m post)"
      using that lvl by (auto simp: lev_def)
    ultimately show False
      by (cases "lev ?h m pre @ lev ?h m post") auto
  qed
  have uid_others: "user_id (node_at ?h a) \<noteq> uid" if "a \<in> set (pre @ post)" for a
  proof
    assume "user_id (node_at ?h a) = uid"
    moreover have "a \<in> set xs" using that by (auto simp: xs)
    ultimately have "index s uid = Some a" using index by blast
    with idx others [OF that] show False by simp
  qed
  have user'': "user_id (node_at ?h'' a) = user_id (node_at ?h a)" if "a \<noteq> t" for a
    using frame(3) [OF that] by (simp add: node_key_def)
  have score'': "score (node_at ?h'' a) = score (node_at ?h a)" if "a \<noteq> t" for a
    using frame(3) [OF that] by (simp add: node_key_def)
  have wf': "well_formed ?s' (pre @ post)"
    unfolding well_formed_def
  proof (intro conjI)
    show "height (nodes ?s') (header ?s') = max_levels ?s'"
      using frame(2) [OF hdr_t] hdr_h by simp
    show "1 \<le> current_level ?s'" using m(3) by simp
    show "current_level ?s' \<le> max_levels ?s'" using m(2) cl by simp
    show "header ?s' < next_node ?s'" using alloc(1) by simp
    show "\<forall>a. nodes ?s' a \<noteq> None \<longrightarrow> a < next_node ?s'"
    proof (intro allI impI)
      fix a assume "nodes ?s' a \<noteq> None"
      then have "h' a \<noteq> None" by (simp split: if_splits)
      then have "?h a \<noteq> None" by (simp only: same_nodes_allocated [OF h'(2)] not_False_eq_True)
      then show "a < next_node ?s'" using alloc(2) by simp
    qed
    show "header ?s' \<notin> set (pre @ post)" using hdr_out by (simp add: xs)
    show "distinct (pre @ post)" by (rule dist')
    show "\<forall>a \<in> set (pre @ post). 1 \<le> height (nodes ?s') a \<and>
            height (nodes ?s') a \<le> current_level ?s'"
      using heights low others frame(2) by (auto simp: xs)
    show "linked (nodes ?s') (header ?s') (max_levels ?s') (pre @ post)"
      using link'' by simp
    show "sorted_wrt (\<lambda>a b. key_before (node_key (node_at (nodes ?s') a))
                                  (node_key (node_at (nodes ?s') b))) (pre @ post)"
    proof -
      have "sorted_wrt (\<lambda>a b. key_before (?key a) (?key b)) (pre @ post)"
        using sorted by (auto simp: xs sorted_wrt_append)
      then show ?thesis
        using others frame(3)
        by (auto elim!: sorted_wrt_mono_rel [rotated])
    qed
    show "\<forall>a \<in> set (pre @ post). score (node_at (nodes ?s') a) \<noteq> NaN"
      using nan others score'' by (auto simp: xs)
    show "\<forall>u a. index ?s' u = Some a \<longleftrightarrow>
            a \<in> set (pre @ post) \<and> user_id (node_at (nodes ?s') a) = u"
    proof (intro allI)
      fix u a
      show "index ?s' u = Some a \<longleftrightarrow>
            a \<in> set (pre @ post) \<and> user_id (node_at (nodes ?s') a) = u"
      proof (cases "u = uid")
        case True
        then show ?thesis
          using uid_others [of a] others [of a] user'' [of a] by auto
      next
        case False
        show ?thesis
        proof
          assume "index ?s' u = Some a"
          then have "index s u = Some a" using False by simp
          then have a: "a \<in> set xs" "user_id (node_at ?h a) = u"
            using index by blast+
          then have "a \<noteq> t" using False t_uid by auto
          with a show "a \<in> set (pre @ post) \<and> user_id (node_at (nodes ?s') a) = u"
            using user'' [of a] by (auto simp: xs)
        next
          assume a: "a \<in> set (pre @ post) \<and> user_id (node_at (nodes ?s') a) = u"
          then have "a \<noteq> t" using others by blast
          then have "user_id (node_at ?h a) = u" using a user'' [of a] by simp
          moreover have "a \<in> set xs" using a by (auto simp: xs)
          ultimately have "index s u = Some a" using index by blast
          then show "index ?s' u = Some a" using False by simp
        qed
      qed
    qed
    show "sl_size ?s' = of_nat (length (pre @ post))"
      by (simp add: size xs)
  qed
  have ent: "entries ?h'' (pre @ post) = filter (\<lambda>e. fst e \<noteq> uid) (entries ?h xs)"
  proof -
    have same: "entry (node_at ?h'' a) = entry (node_at ?h a)" if "a \<in> set (pre @ post)" for a
      using frame(3,4) [OF others [OF that]] by (rule entry_eq)
    have keep: "filter (\<lambda>e. fst e \<noteq> uid) (map (\<lambda>a. entry (node_at ?h a)) ys) =
                  map (\<lambda>a. entry (node_at ?h a)) ys" if "set ys \<subseteq> set (pre @ post)" for ys
      using that uid_others by (auto simp: filter_id_conv entry_def)
    have "entries ?h'' (pre @ post) = map (\<lambda>a. entry (node_at ?h a)) (pre @ post)"
      unfolding entries_def using same by (intro map_cong) auto
    also have "\<dots> = filter (\<lambda>e. fst e \<noteq> uid) (entries ?h xs)"
      using keep [of pre] keep [of post] t_uid
      by (simp add: entries_def xs entry_def)
    finally show ?thesis .
  qed
  show ?thesis
    using run wf' ent by (auto simp: rem)
qed


subsection \<open>\<open>upsert\<close> on a well-formed list\<close>

definition entry_key :: "string \<times> cdouble \<times> i64 \<Rightarrow> cdouble \<times> string" where
  "entry_key e = (fst (snd e), fst e)"

lemma entry_key_entry [simp]: "entry_key (entry n) = node_key n"
  by (simp add: entry_key_def entry_def node_key_def)

text \<open>The place of a new entry among sorted entries: after those that come before it.\<close>

definition place ::
    "string \<times> cdouble \<times> i64 \<Rightarrow> (string \<times> cdouble \<times> i64) list \<Rightarrow> (string \<times> cdouble \<times> i64) list" where
  "place e es =
     takeWhile (\<lambda>x. key_before (entry_key x) (entry_key e)) es @ [e] @
     dropWhile (\<lambda>x. key_before (entry_key x) (entry_key e)) es"

lemma random_level_loop_range:
  "level \<le> levels \<Longrightarrow>
     level \<le> fst (random_level_loop levels p g level) \<and>
     fst (random_level_loop levels p g level) \<le> levels"
proof (induction levels p g level rule: random_level_loop.induct)
  case (1 levels p g level)
  show ?case
  proof (cases "level < levels \<and> dless (g 0) p")
    case True
    then have "Suc level \<le> fst (random_level_loop levels p (\<lambda>n. g (Suc n)) (Suc level)) \<and>
               fst (random_level_loop levels p (\<lambda>n. g (Suc n)) (Suc level)) \<le> levels"
      by (intro "1.IH") simp_all
    then show ?thesis
      using True by (subst (1 2) random_level_loop.simps) simp
  next
    case False
    then show ?thesis
      using "1.prems" by (subst (1 2) random_level_loop.simps) auto
  qed
qed

lemma random_level_range:
  "1 \<le> max_levels s \<Longrightarrow>
     1 \<le> fst (random_level s) \<and> fst (random_level s) \<le> max_levels s"
  unfolding random_level_def by (rule random_level_loop_range)

lemma upsert_absent:
  assumes wf: "well_formed s xs" and idx: "index s uid = None" and sc: "sc \<noteq> NaN"
  shows "\<exists>s' a xs'. upsert s uid sc ts = Some (s', a) \<and> well_formed s' xs' \<and>
           entries (nodes s') xs' = place (uid, sc, ts) (entries (nodes s) xs) \<and>
           max_levels s' = max_levels s \<and> header s' = header s \<and>
           probability s' = probability s \<and> index s' uid = Some a"
proof -
  define NL where "NL = fst (random_level s)"
  have lvl: "1 \<le> NL" "NL \<le> max_levels s"
    using random_level_range [of s] wf unfolding NL_def well_formed_def by simp_all
  let ?h = "nodes s" and ?hdr = "header s" and ?MX = "max_levels s" and ?CL = "current_level s"
  let ?key = "\<lambda>a. node_key (node_at ?h a)"
  from wf have hdr_h: "height ?h ?hdr = ?MX" and cl: "1 \<le> ?CL" "?CL \<le> ?MX"
    and alloc: "?hdr < next_node s" "\<forall>a. ?h a \<noteq> None \<longrightarrow> a < next_node s"
    and hdr_out: "?hdr \<notin> set xs" and dist: "distinct xs"
    and heights: "\<forall>a \<in> set xs. 1 \<le> height ?h a \<and> height ?h a \<le> ?CL"
    and link: "linked ?h ?hdr ?MX xs"
    and sorted: "sorted_wrt (\<lambda>a b. key_before (?key a) (?key b)) xs"
    and nan: "\<forall>a \<in> set xs. score (node_at ?h a) \<noteq> NaN"
    and index: "\<forall>u a. index s u = Some a \<longleftrightarrow> a \<in> set xs \<and> user_id (node_at ?h a) = u"
    and size: "sl_size s = of_nat (length xs)"
    by (simp_all add: well_formed_def)
  let ?a = "next_node s"
  let ?new = "\<lparr>user_id = uid, score = sc, last_update = ts, forward = replicate NL None\<rparr>"
  let ?h1 = "?h(?a \<mapsto> ?new)"
  let ?B = "\<lambda>a. key_before (?key a) (sc, uid)"
  define pre where "pre = takeWhile ?B xs"
  define post where "post = dropWhile ?B xs"
  have xs: "xs = pre @ post" by (simp add: pre_def post_def)
  have allocated: "?h a \<noteq> None" if "a \<in> set xs" for a
    using heights that height_pos_allocated [of ?h a] by fastforce
  have fresh: "?h ?a = None" using alloc(2) by auto
  have a_out: "?a \<notin> set xs"
  proof
    assume "?a \<in> set xs"
    from allocated [OF this] fresh show False by simp
  qed
  have a_hdr: "?a \<noteq> ?hdr" using alloc(1) by simp
  have frame1: "get_forward ?h1 b l = get_forward ?h b l" "height ?h1 b = height ?h b"
      "node_at ?h1 b = node_at ?h b" "?h1 b = ?h b"
    if "b \<noteq> ?a" for b l
    using that by (simp_all add: get_forward_def height_def node_at_def)
  have old: "b \<noteq> ?a" if "b \<in> set xs" for b using that a_out by auto
  have ha: "height ?h1 ?a = NL" "node_at ?h1 ?a = ?new"
    by (simp_all add: height_def node_at_def)
  have lev1: "lev ?h1 l ys = lev ?h l ys" if "set ys \<subseteq> set xs" for l ys
    using that old frame1(2) by (intro lev_same_heights) auto
  have set_pre: "set pre \<subseteq> set xs" unfolding pre_def by (auto dest: set_takeWhileD)
  have set_post: "set post \<subseteq> set xs" unfolding post_def by (auto dest: set_dropWhileD)
  \<comment> \<open>the nodes after the place do not come before the new key\<close>
  have keys_nan: "fst (?key b) \<noteq> NaN" if "b \<in> set xs" for b
    using nan that by (simp add: node_key_def)
  have post_not: "\<forall>b \<in> set post. \<not> ?B b"
    unfolding post_def
  proof (rule sorted_wrt_dropWhile [OF sorted])
    fix b c assume "b \<in> set xs" "c \<in> set xs" "key_before (?key b) (?key c)" "?B c"
    then show "?B b"
      using key_before_trans [of "?key b" "?key c" "(sc, uid)"] keys_nan sc by simp
  qed
  have pre_yes: "\<forall>b \<in> set pre. ?B b"
    unfolding pre_def by (auto dest: set_takeWhileD)
  \<comment> \<open>the search\<close>
  have link1: "linked ?h1 ?hdr ?MX (pre @ post)"
    unfolding linked_def
  proof (intro allI impI)
    fix l assume "l < ?MX"
    with link obtain p where p: "get_forward ?h ?hdr l = Some p" "seg ?h l p (lev ?h l xs) None"
      by (auto simp: linked_def)
    have "seg ?h1 l p (lev ?h l xs) None"
      using p(2) old frame1(1) lev_subset [of ?h l xs]
      by (subst seg_frame [where h = ?h]) auto
    then show "\<exists>p. get_forward ?h1 ?hdr l = Some p \<and>
                 seg ?h1 l p (lev ?h1 l (pre @ post)) None"
      using p(1) frame1(1) [of ?hdr] a_hdr lev1 [of xs l] by (auto simp flip: xs)
  qed
  have pre_on: "\<forall>b \<in> set pre. goes_on ?h1 None (sc, uid) b"
  proof
    fix b assume b: "b \<in> set pre"
    then have bx: "b \<in> set xs" using set_pre by blast
    have "?h1 b \<noteq> None" using allocated [OF bx] frame1(4) [OF old [OF bx]] by simp
    moreover have "key_before (node_key (node_at ?h1 b)) (sc, uid)"
      using pre_yes b frame1(3) [OF old [OF bx]] by simp
    ultimately show "goes_on ?h1 None (sc, uid) b"
      by (simp add: goes_on_def)
  qed
  have post_stop: "\<forall>b \<in> set post. Some b = None \<or>
       (?h1 b \<noteq> None \<and> \<not> key_before (node_key (node_at ?h1 b)) (sc, uid))"
  proof
    fix b assume b: "b \<in> set post"
    then have bx: "b \<in> set xs" using set_post by blast
    have "?h1 b \<noteq> None" using allocated [OF bx] frame1(4) [OF old [OF bx]] by simp
    moreover from post_not b have "\<not> ?B b" by blast
    then have "\<not> key_before (node_key (node_at ?h1 b)) (sc, uid)"
      by (simp only: frame1(3) [OF old [OF bx]] not_False_eq_True)
    ultimately show "Some b = None \<or>
       (?h1 b \<noteq> None \<and> \<not> key_before (node_key (node_at ?h1 b)) (sc, uid))"
      by simp
  qed
  have "\<not> ?CL < height ?h1 b" if "b \<in> set pre" for b
    using heights that set_pre old frame1(2) by (auto simp: not_less)
  then have top_empty: "lev ?h1 ?CL pre = []"
    by (simp add: lev_def filter_empty_conv)
  obtain update where upd: "descend ?h1 None sc uid ?hdr ?CL (replicate ?MX None) = Some update"
      "length update = ?MX"
      "\<forall>l < ?CL. update ! l = Some (last (?hdr # lev ?h1 l pre))"
  proof -
    have cur: "?hdr = last (?hdr # lev ?h1 ?CL pre)"
      by (simp only: top_empty) simp
    have len0: "length (replicate ?MX (None :: nat option)) = ?MX"
      by simp
    from descend_update [OF link1 cl(2) len0 pre_on post_stop cur] that
    show thesis by blast
  qed
  let ?update' = "if ?CL < NL
                  then fold (\<lambda>level u. u[level := Some ?hdr]) [?CL..<NL] update else update"
  let ?CL' = "if ?CL < NL then NL else ?CL"
  have hb: "height ?h1 b \<le> ?CL" if "b \<in> set xs" for b
    using heights that frame1(2) [OF old [OF that]] by simp
  have above_empty: "lev ?h1 l pre = []" if "?CL \<le> l" for l
  proof -
    have "\<not> l < height ?h1 b" if "b \<in> set pre" for b
    proof -
      from that set_pre have "b \<in> set xs" by blast
      from hb [OF this] \<open>?CL \<le> l\<close> show ?thesis by simp
    qed
    then show ?thesis by (simp add: lev_def filter_empty_conv)
  qed
  have upd': "length ?update' = ?MX"
      "\<forall>l < NL. ?update' ! l = Some (last (?hdr # lev ?h1 l pre))"
  proof -
    show "length ?update' = ?MX"
      using upd(2) fold_fill [of "Some ?hdr" ?CL NL update] by simp
    show "\<forall>l < NL. ?update' ! l = Some (last (?hdr # lev ?h1 l pre))"
    proof (intro allI impI)
      fix l assume l: "l < NL"
      then have "l < length update" using lvl(2) upd(2) by simp
      then show "?update' ! l = Some (last (?hdr # lev ?h1 l pre))"
        using fold_fill [of "Some ?hdr" ?CL NL update] upd(3) above_empty [of l] l
        by (cases "l < ?CL") auto
    qed
  qed
  \<comment> \<open>the splice\<close>
  have "\<exists>h'. insert_levels ?h1 ?a ?update' [0..<NL] = Some h' \<and> same_nodes ?h1 h' \<and>
           (\<forall>l < ?MX. \<exists>p. get_forward h' ?hdr l = Some p \<and>
                seg h' l p (lev ?h1 l pre @ (if l < NL then [?a] else []) @ lev ?h1 l post) None)"
  proof (rule insert_levels_linked)
    show "0 \<le> NL" by simp
    show "NL \<le> length ?update'" using upd'(1) lvl(2) by simp
    show "\<forall>l. 0 \<le> l \<and> l < NL \<longrightarrow> ?update' ! l = Some (last (?hdr # lev ?h1 l pre))"
      using upd'(2) by simp
    show "\<forall>l. distinct (lev ?h1 l pre @ lev ?h1 l post) \<and>
              ?hdr \<notin> set (lev ?h1 l pre @ lev ?h1 l post) \<and>
              ?a \<notin> set (lev ?h1 l pre @ lev ?h1 l post)"
    proof
      fix l
      have "lev ?h1 l pre @ lev ?h1 l post = lev ?h1 l xs"
        by (simp only: lev_append [symmetric] xs [symmetric])
      moreover have "distinct (lev ?h1 l xs)" using dist by (simp add: lev_def)
      moreover have "set (lev ?h1 l xs) \<subseteq> set xs" by (rule lev_subset)
      ultimately show "distinct (lev ?h1 l pre @ lev ?h1 l post) \<and>
              ?hdr \<notin> set (lev ?h1 l pre @ lev ?h1 l post) \<and>
              ?a \<notin> set (lev ?h1 l pre @ lev ?h1 l post)"
        using hdr_out a_out by (simp only:) blast
    qed
    show "?a \<noteq> ?hdr" by (rule a_hdr)
    show "NL \<le> height ?h1 ?a" by (simp add: ha)
    show "\<forall>l < ?MX. \<exists>p. get_forward ?h1 ?hdr l = Some p \<and>
            seg ?h1 l p (lev ?h1 l pre @ (if l < 0 then [?a] else []) @ lev ?h1 l post) None"
    proof (intro allI impI)
      fix l assume "l < ?MX"
      with link1 obtain p where p: "get_forward ?h1 ?hdr l = Some p"
          "seg ?h1 l p (lev ?h1 l (pre @ post)) None"
        unfolding linked_def by blast
      have "lev ?h1 l pre @ (if l < 0 then [?a] else []) @ lev ?h1 l post =
              lev ?h1 l (pre @ post)"
        by (simp only: lev_append) simp
      with p show "\<exists>p. get_forward ?h1 ?hdr l = Some p \<and>
            seg ?h1 l p (lev ?h1 l pre @ (if l < 0 then [?a] else []) @ lev ?h1 l post) None"
        by (simp only:) blast
    qed
    show "NL \<le> ?MX" by (rule lvl(2))
  qed
  then obtain h' where h': "insert_levels ?h1 ?a ?update' [0..<NL] = Some h'"
      "same_nodes ?h1 h'"
      "\<forall>l < ?MX. \<exists>p. get_forward h' ?hdr l = Some p \<and>
                seg h' l p (lev ?h1 l pre @ (if l < NL then [?a] else []) @ lev ?h1 l post) None"
    by blast
  let ?s' = "s\<lparr>nodes := h', next_node := Suc ?a, current_level := ?CL',
                rng := snd (random_level s),
                index := (index s)(uid \<mapsto> ?a), sl_size := sl_size s + 1\<rparr>"
  let ?xs' = "pre @ [?a] @ post"
  have run: "upsert s uid sc ts = Some (?s', ?a)"
  proof -
    have nl: "fst (random_level s) = NL" by (simp add: NL_def)
    show ?thesis
      using h'(1)
      by (cases "?CL < NL")
        (simp_all add: upsert_def erase_absent [OF idx] Let_def upd(1) insert_node_def nl)
  qed
  \<comment> \<open>the new list\<close>
  have height': "height h' b = height ?h1 b" for b
    using h'(2) by (simp add: same_nodes_def)
  have key': "node_key (node_at h' b) = node_key (node_at ?h1 b)"
      "last_update (node_at h' b) = last_update (node_at ?h1 b)" for b
    using h'(2) by (simp_all add: same_nodes_def)
  have key_old: "node_key (node_at h' b) = ?key b" if "b \<in> set xs" for b
    using key'(1) [of b] frame1(3) [OF old [OF that]] by simp
  have key_new: "node_key (node_at h' ?a) = (sc, uid)"
    using key'(1) [of ?a] by (simp add: ha node_key_def)
  have lev': "lev h' l ?xs' = lev ?h1 l pre @ (if l < NL then [?a] else []) @ lev ?h1 l post"
    for l
    using height' by (simp add: lev_def ha)
  have no_uid: "user_id (node_at ?h b) \<noteq> uid" if "b \<in> set xs" for b
    using index idx that by (metis option.distinct(1))
  have after: "key_before (sc, uid) (?key b)" if "b \<in> set post" for b
  proof -
    have b: "b \<in> set xs" using that set_post by blast
    have "snd (?key b) \<noteq> uid" using no_uid [OF b] by (simp add: node_key_def)
    then have "key_before (?key b) (sc, uid) \<or> key_before (sc, uid) (?key b)"
      using key_before_total [of "?key b" "(sc, uid)"] keys_nan [OF b] sc by simp
    with post_not that show ?thesis by blast
  qed
  have sorted': "sorted_wrt (\<lambda>a b. key_before (node_key (node_at h' a)) (node_key (node_at h' b))) ?xs'"
  proof -
    have "sorted_wrt (\<lambda>a b. key_before (?key a) (?key b)) (pre @ post)"
      using sorted by (simp only: xs [symmetric])
    then have parts: "sorted_wrt (\<lambda>a b. key_before (?key a) (?key b)) pre"
        "sorted_wrt (\<lambda>a b. key_before (?key a) (?key b)) post"
        "\<forall>b \<in> set pre. \<forall>c \<in> set post. key_before (?key b) (?key c)"
      unfolding sorted_wrt_append by blast+
    have "sorted_wrt (\<lambda>a b. key_before (node_key (node_at h' a)) (node_key (node_at h' b))) pre"
    proof (rule sorted_wrt_mono_rel [OF _ parts(1)])
      fix x y assume "x \<in> set pre" "y \<in> set pre" and before: "key_before (?key x) (?key y)"
      then have "x \<in> set xs" "y \<in> set xs" using set_pre by blast+
      then show "key_before (node_key (node_at h' x)) (node_key (node_at h' y))"
        using before by (simp only: key_old)
    qed
    moreover have "sorted_wrt (\<lambda>a b. key_before (node_key (node_at h' a)) (node_key (node_at h' b))) post"
    proof (rule sorted_wrt_mono_rel [OF _ parts(2)])
      fix x y assume "x \<in> set post" "y \<in> set post" and before: "key_before (?key x) (?key y)"
      then have "x \<in> set xs" "y \<in> set xs" using set_post by blast+
      then show "key_before (node_key (node_at h' x)) (node_key (node_at h' y))"
        using before by (simp only: key_old)
    qed
    moreover have "\<forall>b \<in> set pre. key_before (node_key (node_at h' b)) (node_key (node_at h' ?a))"
    proof
      fix b assume b: "b \<in> set pre"
      then have bx: "b \<in> set xs" using set_pre by blast
      have "key_before (?key b) (sc, uid)" using pre_yes b by blast
      then show "key_before (node_key (node_at h' b)) (node_key (node_at h' ?a))"
        using bx by (simp only: key_old key_new)
    qed
    moreover have "\<forall>c \<in> set post. key_before (node_key (node_at h' ?a)) (node_key (node_at h' c))"
    proof
      fix c assume c: "c \<in> set post"
      then have "c \<in> set xs" using set_post by blast
      then show "key_before (node_key (node_at h' ?a)) (node_key (node_at h' c))"
        using after [OF c] by (simp only: key_old key_new)
    qed
    moreover have "\<forall>b \<in> set pre. \<forall>c \<in> set post.
        key_before (node_key (node_at h' b)) (node_key (node_at h' c))"
    proof (intro ballI)
      fix b c assume bc: "b \<in> set pre" "c \<in> set post"
      then have bx: "b \<in> set xs" "c \<in> set xs" using set_pre set_post by blast+
      have "key_before (?key b) (?key c)" using parts(3) bc by blast
      then show "key_before (node_key (node_at h' b)) (node_key (node_at h' c))"
        using bx by (simp only: key_old)
    qed
    ultimately show ?thesis
      by (simp add: sorted_wrt_append)
  qed
  have set_xs': "set ?xs' = insert ?a (set xs)"
  proof -
    have "set pre \<union> set post = set xs"
      using arg_cong [OF xs, of set] by simp
    then show ?thesis by auto
  qed
  have user_old: "user_id (node_at h' b) = user_id (node_at ?h b)" if "b \<in> set xs" for b
    using key_old [OF that] by (simp add: node_key_def)
  have user_new: "user_id (node_at h' ?a) = uid"
    using key_new by (simp add: node_key_def)
  have wf': "well_formed ?s' ?xs'"
    unfolding well_formed_def
  proof (intro conjI)
    show "height (nodes ?s') (header ?s') = max_levels ?s'"
      using height' [of ?hdr] frame1(2) [of ?hdr] a_hdr hdr_h by simp
    show "1 \<le> current_level ?s'" using cl lvl by simp
    show "current_level ?s' \<le> max_levels ?s'" using cl lvl by simp
    show "header ?s' < next_node ?s'" using alloc(1) by simp
    show "\<forall>a. nodes ?s' a \<noteq> None \<longrightarrow> a < next_node ?s'"
    proof (intro allI impI)
      fix b assume "nodes ?s' b \<noteq> None"
      then have "h' b \<noteq> None" by simp
      then have "?h1 b \<noteq> None" by (simp only: same_nodes_allocated [OF h'(2)] not_False_eq_True)
      then have "b = ?a \<or> ?h b \<noteq> None" by (auto split: if_splits)
      then show "b < next_node ?s'" using alloc(2) by auto
    qed
    show "header ?s' \<notin> set ?xs'"
      using hdr_out a_hdr unfolding set_xs' by simp
    show "distinct ?xs'"
    proof -
      have "distinct (pre @ post)" using dist by (simp only: xs [symmetric])
      then show ?thesis using a_out set_pre set_post by auto
    qed
    show "\<forall>a \<in> set ?xs'. 1 \<le> height (nodes ?s') a \<and> height (nodes ?s') a \<le> current_level ?s'"
    proof
      fix b assume "b \<in> set ?xs'"
      then have "b = ?a \<or> b \<in> set xs" unfolding set_xs' by simp
      then show "1 \<le> height (nodes ?s') b \<and> height (nodes ?s') b \<le> current_level ?s'"
      proof
        assume "b = ?a"
        then show ?thesis using lvl by (simp add: height' ha)
      next
        assume b: "b \<in> set xs"
        then have "height h' b = height ?h b"
          using height' [of b] frame1(2) [OF old [OF b]] by simp
        then show ?thesis using heights b by auto
      qed
    qed
    have "linked h' ?hdr ?MX ?xs'"
      unfolding linked_def lev' using h'(3) by blast
    then show "linked (nodes ?s') (header ?s') (max_levels ?s') ?xs'"
      by simp
    show "sorted_wrt (\<lambda>a b. key_before (node_key (node_at (nodes ?s') a))
                                  (node_key (node_at (nodes ?s') b))) ?xs'"
      using sorted' by simp
    show "\<forall>a \<in> set ?xs'. score (node_at (nodes ?s') a) \<noteq> NaN"
    proof
      fix b assume "b \<in> set ?xs'"
      then have "b = ?a \<or> b \<in> set xs" unfolding set_xs' by simp
      then show "score (node_at (nodes ?s') b) \<noteq> NaN"
        using key_new key_old [of b] keys_nan [of b] sc by (auto simp: node_key_def)
    qed
    show "\<forall>u a. index ?s' u = Some a \<longleftrightarrow>
            a \<in> set ?xs' \<and> user_id (node_at (nodes ?s') a) = u"
    proof (intro allI)
      fix u b
      show "index ?s' u = Some b \<longleftrightarrow> b \<in> set ?xs' \<and> user_id (node_at (nodes ?s') b) = u"
      proof (cases "u = uid")
        case True
        show ?thesis
        proof
          assume "index ?s' u = Some b"
          then have "b = ?a" using True by simp
          then show "b \<in> set ?xs' \<and> user_id (node_at (nodes ?s') b) = u"
            using True user_new by simp
        next
          assume b: "b \<in> set ?xs' \<and> user_id (node_at (nodes ?s') b) = u"
          have "b = ?a"
          proof (rule ccontr)
            assume "b \<noteq> ?a"
            then have "b \<in> set xs" using b unfolding set_xs' by simp
            then show False using b True user_old [of b] no_uid [of b] by simp
          qed
          then show "index ?s' u = Some b" using True by simp
        qed
      next
        case False
        show ?thesis
        proof
          assume "index ?s' u = Some b"
          then have "index s u = Some b" using False by simp
          then have "b \<in> set xs" "user_id (node_at ?h b) = u" using index by blast+
          then show "b \<in> set ?xs' \<and> user_id (node_at (nodes ?s') b) = u"
            using user_old [of b] unfolding set_xs' by simp
        next
          assume b: "b \<in> set ?xs' \<and> user_id (node_at (nodes ?s') b) = u"
          then have "b \<noteq> ?a" using False user_new by auto
          then have bx: "b \<in> set xs" using b unfolding set_xs' by simp
          then have "user_id (node_at ?h b) = u" using b user_old [of b] by simp
          then have "index s u = Some b" using index bx by blast
          then show "index ?s' u = Some b" using False by simp
        qed
      qed
    qed
    show "sl_size ?s' = of_nat (length ?xs')"
    proof -
      have "length ?xs' = Suc (length xs)"
        using arg_cong [OF xs, of length] by simp
      then show ?thesis by (simp add: size)
    qed
  qed
  have ent: "entries h' ?xs' = place (uid, sc, ts) (entries ?h xs)"
  proof -
    have e_old: "entry (node_at h' b) = entry (node_at ?h b)" if "b \<in> set xs" for b
    proof (rule entry_eq)
      show "node_key (node_at h' b) = ?key b" by (rule key_old [OF that])
      show "last_update (node_at h' b) = last_update (node_at ?h b)"
        using key'(2) [of b] frame1(3) [OF old [OF that]] by simp
    qed
    have e_new: "entry (node_at h' ?a) = (uid, sc, ts)"
      using key_new key'(2) [of ?a] by (simp add: entry_def node_key_def ha)
    have tw: "takeWhile (\<lambda>x. key_before (entry_key x) (sc, uid)) (map (\<lambda>a. entry (node_at ?h a)) xs)
                = map (\<lambda>a. entry (node_at ?h a)) pre"
      by (simp add: takeWhile_map comp_def pre_def)
    have dw: "dropWhile (\<lambda>x. key_before (entry_key x) (sc, uid)) (map (\<lambda>a. entry (node_at ?h a)) xs)
                = map (\<lambda>a. entry (node_at ?h a)) post"
      by (simp add: dropWhile_map comp_def post_def)
    have "map (\<lambda>a. entry (node_at h' a)) pre = map (\<lambda>a. entry (node_at ?h a)) pre"
      using e_old set_pre by (intro map_cong) auto
    moreover have "map (\<lambda>a. entry (node_at h' a)) post = map (\<lambda>a. entry (node_at ?h a)) post"
      using e_old set_post by (intro map_cong) auto
    moreover have ek: "entry_key (uid, sc, ts) = (sc, uid)"
      by (simp add: entry_key_def)
    ultimately show ?thesis
      unfolding entries_def place_def ek tw dw
      by (simp add: e_new)
  qed
  show ?thesis
    using run wf' ent by (intro exI [of _ ?s'] exI [of _ ?a] exI [of _ ?xs']) simp
qed


lemma entries_no_user:
  assumes wf: "well_formed s xs" and idx: "index s uid = None"
  shows "filter (\<lambda>e. fst e \<noteq> uid) (entries (nodes s) xs) = entries (nodes s) xs"
proof -
  have "user_id (node_at (nodes s) a) \<noteq> uid" if "a \<in> set xs" for a
  proof
    assume "user_id (node_at (nodes s) a) = uid"
    with that wf have "index s uid = Some a" unfolding well_formed_def by blast
    with idx show False by simp
  qed
  then show ?thesis
    by (simp add: entries_def entry_def filter_map comp_def filter_id_conv)
qed

lemma upsert_after_erase:
  assumes "erase s uid = Some (s1, b)" "index s1 uid = None"
  shows "upsert s uid sc ts = upsert s1 uid sc ts"
  using assms by (simp add: upsert_def erase_absent)

text \<open>
  \<open>upsert\<close> on a well-formed list, with a score that is a number or an infinity: the
  entry of the user is removed and the new entry placed in key order.
\<close>

lemma upsert_wf:
  assumes wf: "well_formed s xs" and sc: "sc \<noteq> NaN"
  shows "\<exists>s' a xs'. upsert s uid sc ts = Some (s', a) \<and> well_formed s' xs' \<and>
           entries (nodes s') xs' =
             place (uid, sc, ts) (filter (\<lambda>e. fst e \<noteq> uid) (entries (nodes s) xs)) \<and>
           max_levels s' = max_levels s \<and> header s' = header s \<and>
           probability s' = probability s \<and> index s' uid = Some a"
proof (cases "index s uid")
  case None
  from upsert_absent [OF wf None sc, of ts] entries_no_user [OF wf None]
  show ?thesis by simp
next
  case (Some t)
  from erase_present [OF wf Some] obtain s1 where s1: "erase s uid = Some (s1, True)"
      "well_formed s1 (remove1 t xs)"
      "entries (nodes s1) (remove1 t xs) = filter (\<lambda>e. fst e \<noteq> uid) (entries (nodes s) xs)"
      "max_levels s1 = max_levels s" "header s1 = header s" "probability s1 = probability s"
      "index s1 uid = None"
    by blast
  from upsert_absent [OF s1(2) s1(7) sc, of ts] obtain s' a xs' where
      "upsert s1 uid sc ts = Some (s', a)" "well_formed s' xs'"
      "entries (nodes s') xs' = place (uid, sc, ts) (entries (nodes s1) (remove1 t xs))"
      "max_levels s' = max_levels s1" "header s' = header s1" "probability s' = probability s1"
      "index s' uid = Some a"
    by blast
  then show ?thesis
    using s1 upsert_after_erase [OF s1(1) s1(7), of sc ts] by auto
qed

lemma erase_wf:
  assumes wf: "well_formed s xs"
  shows "\<exists>s' b xs'. erase s uid = Some (s', b) \<and> well_formed s' xs' \<and>
           entries (nodes s') xs' = filter (\<lambda>e. fst e \<noteq> uid) (entries (nodes s) xs) \<and>
           max_levels s' = max_levels s \<and> header s' = header s \<and>
           probability s' = probability s \<and> index s' uid = None"
proof (cases "index s uid")
  case None
  from erase_absent [OF None] entries_no_user [OF wf None] wf None
  show ?thesis by auto
next
  case (Some t)
  from erase_present [OF wf Some] show ?thesis by blast
qed

subsection \<open>The traversals of a well-formed list\<close>

lemma lev_0: "\<forall>a \<in> set xs. 1 \<le> height h a \<Longrightarrow> lev h 0 xs = xs"
  by (induction xs) (simp_all add: lev_def)

lemma wf_level0:
  assumes "well_formed s xs"
  shows "\<exists>p. get_forward (nodes s) (header s) 0 = Some p \<and> seg (nodes s) 0 p xs None"
proof -
  from assms have "linked (nodes s) (header s) (max_levels s) xs" "0 < max_levels s"
      "\<forall>a \<in> set xs. 1 \<le> height (nodes s) a"
    by (auto simp: well_formed_def)
  then show ?thesis
    by (auto simp: linked_def lev_0)
qed

lemma traverse_seg:
  assumes "seg h 0 p xs None"
  shows "traverse h p = Some (map (node_at h) xs)"
  using assms
proof (induction xs arbitrary: p)
  case Nil
  then show ?case by (subst traverse.simps) simp
next
  case (Cons a as)
  then obtain r where r: "p = Some a" "get_forward h a 0 = Some r" "seg h 0 r as None"
    by auto
  from r(2) obtain n where n: "h a = Some n"
    by (auto simp: get_forward_def split: option.splits)
  show ?case
    using Cons.IH [OF r(3)] r(1,2) n
    by (subst traverse.simps) (simp add: node_at_def)
qed

lemma level0_wf:
  assumes "well_formed s xs"
  shows "level0 s = Some (map (node_at (nodes s)) xs)"
  using wf_level0 [OF assms] by (auto simp: level0_def traverse_seg)

lemma last_from_seg:
  assumes "seg h 0 (Some a) (a # as) None"
  shows "last_from h a = Some (last (a # as))"
  using assms
proof (induction as arbitrary: a)
  case Nil
  then show ?case by (subst last_from.simps) simp
next
  case (Cons b bs)
  then have "get_forward h a 0 = Some (Some b)" "seg h 0 (Some b) (b # bs) None"
    by auto
  then show ?case
    using Cons.IH [of b] by (subst last_from.simps) simp
qed

lemma tail_wf:
  assumes "well_formed s xs"
  shows "tail s = Some (if xs = [] then None else Some (last xs))"
proof -
  from wf_level0 [OF assms] obtain p where p: "get_forward (nodes s) (header s) 0 = Some p"
      "seg (nodes s) 0 p xs None"
    by blast
  show ?thesis
  proof (cases xs)
    case Nil
    then show ?thesis using p by (simp add: tail_def)
  next
    case (Cons a as)
    then have "p = Some a" using p(2) by simp
    then show ?thesis
      using p Cons last_from_seg [of "nodes s" a as] by (simp add: tail_def)
  qed
qed



lemma SkipList_wf:
  assumes "SkipList levels p seed = Inr s"
  shows "well_formed s [] \<and> max_levels s = nat levels \<and> probability s = p \<and> rng s = seed"
proof -
  from assms have l: "0 < levels" "levels \<le> 32"
    and s: "s = \<lparr>nodes = [0 \<mapsto> \<lparr>user_id = [], score = Finite 0, last_update = 0,
                                forward = replicate (nat levels) None\<rparr>],
                next_node = 1, header = 0, max_levels = nat levels, probability = p,
                current_level = 1, sl_size = 0, rng = seed, index = Map.empty\<rparr>"
    by (auto simp: SkipList_def kMaxSupportedLevels_def split: if_splits)
  have "well_formed s []"
    unfolding well_formed_def s using l
    by (simp add: height_def linked_def lev_def get_forward_def)
  then show ?thesis by (simp add: s)
qed


section \<open>The leaderboard\<close>

text \<open>
  \<open>Leaderboard\<close>: the skip list, the decay and the cap.  The clock \<open>clock_fn_\<close> is the
  environment's; the time it returns is an input of the call that reads it.
\<close>

record leaderboard =
  lb_skip_list :: skip_list
  lb_decay :: time_decay
  lb_max_users :: u64

definition Leaderboard :: "cdouble \<Rightarrow> u64 \<Rightarrow> (nat \<Rightarrow> cdouble) \<Rightarrow> error + leaderboard" where
  "Leaderboard factor max_users seed =
     (case SkipList 16 (Finite (1 / 2)) seed of
        Inl e \<Rightarrow> Inl e
      | Inr sl \<Rightarrow>
          (case TimeDecay factor of
             Inl e \<Rightarrow> Inl e
           | Inr d \<Rightarrow> Inr \<lparr>lb_skip_list = sl, lb_decay = d, lb_max_users = max_users\<rparr>))"

text \<open>
  \<open>update_user\<close>; \<open>clock\<close> is what \<open>clock_fn_()\<close> returns.  \<open>None\<close> is undefined
  behaviour or a loop that does not return, as in the skip list.
\<close>

definition update_user ::
    "arith \<Rightarrow> leaderboard \<Rightarrow> string \<Rightarrow> cdouble \<Rightarrow> i64 \<Rightarrow> i64 \<Rightarrow> leaderboard option" where
  "update_user ar lb uid points timestamp clock =
     (let now = (if 0 < sint timestamp then timestamp else clock);
          sl = lb_skip_list lb
      in if dequal points (Finite 0) \<and> find_node sl uid = None then Some lb
         else
           (case (case find_node sl uid of
                    None \<Rightarrow> Some points
                  | Some existing \<Rightarrow>
                      (case nodes sl existing of
                         None \<Rightarrow> None
                       | Some n \<Rightarrow>
                           Some (fadd ar (decay_apply ar (lb_decay lb) (score n) (last_update n) now)
                                   points))) of
              None \<Rightarrow> None
            | Some new_score \<Rightarrow>
                (case upsert sl uid new_score now of
                   None \<Rightarrow> None
                 | Some (sl1, a) \<Rightarrow>
                     if 0 < lb_max_users lb \<and> lb_max_users lb < sl_size sl1
                     then (case tail sl1 of
                             None \<Rightarrow> None
                           | Some None \<Rightarrow> Some (lb\<lparr>lb_skip_list := sl1\<rparr>)
                           | Some (Some t) \<Rightarrow>
                               (case nodes sl1 t of
                                  None \<Rightarrow> None
                                | Some tn \<Rightarrow>
                                    if user_id tn \<noteq> uid \<or> lb_max_users lb < sl_size sl1
                                    then (case erase sl1 (user_id tn) of
                                            None \<Rightarrow> None
                                          | Some (sl2, removed) \<Rightarrow> Some (lb\<lparr>lb_skip_list := sl2\<rparr>))
                                    else Some (lb\<lparr>lb_skip_list := sl1\<rparr>)))
                     else Some (lb\<lparr>lb_skip_list := sl1\<rparr>))))"

text \<open>\<open>size\<close>.\<close>

definition lb_size :: "leaderboard \<Rightarrow> u64" where
  "lb_size lb = sl_size (lb_skip_list lb)"

subsection \<open>The strings of the snapshot\<close>

text \<open>
  The searches of \<open>std::string\<close> return a position or \<open>npos\<close>, here \<open>None\<close>.
  \<open>index_where P s\<close> is the position of the first character of \<open>s\<close> with \<open>P\<close>.
\<close>

fun index_where :: "(char \<Rightarrow> bool) \<Rightarrow> string \<Rightarrow> nat option" where
  "index_where P [] = None"
| "index_where P (c # cs) = (if P c then Some 0 else map_option Suc (index_where P cs))"

text \<open>\<open>s.find(c, pos)\<close> and \<open>s.find_first_of(chars, pos)\<close>.\<close>

definition find_char :: "string \<Rightarrow> char \<Rightarrow> nat \<Rightarrow> nat option" where
  "find_char s c pos = map_option (\<lambda>i. pos + i) (index_where (\<lambda>x. x = c) (drop pos s))"

definition find_first_of :: "string \<Rightarrow> string \<Rightarrow> nat \<Rightarrow> nat option" where
  "find_first_of s chars pos =
     map_option (\<lambda>i. pos + i) (index_where (\<lambda>x. x \<in> set chars) (drop pos s))"

text \<open>\<open>s.find_first_not_of(chars)\<close> and \<open>s.find_last_not_of(chars)\<close>.\<close>

definition find_first_not_of :: "string \<Rightarrow> string \<Rightarrow> nat option" where
  "find_first_not_of s chars = index_where (\<lambda>x. x \<notin> set chars) s"

definition find_last_not_of :: "string \<Rightarrow> string \<Rightarrow> nat option" where
  "find_last_not_of s chars =
     map_option (\<lambda>i. length s - 1 - i) (index_where (\<lambda>x. x \<notin> set chars) (rev s))"

text \<open>\<open>s.find(needle)\<close>, from position 0.\<close>

fun find_str :: "string \<Rightarrow> string \<Rightarrow> nat option" where
  "find_str [] needle = (if needle = [] then Some 0 else None)"
| "find_str (c # cs) needle =
     (if take (length needle) (c # cs) = needle then Some 0
      else map_option Suc (find_str cs needle))"

text \<open>
  \<open>s.substr(pos, count)\<close>, for \<open>pos\<close> within the string (every call of the source
  has it there).  \<open>substr_to s pos e\<close> is \<open>s.substr(pos, e - pos)\<close> for a position \<open>e\<close>
  that a search from \<open>pos\<close> returned: for \<open>npos\<close> the count exceeds the length and the
  substring runs to the end.
\<close>

definition substr :: "string \<Rightarrow> nat \<Rightarrow> nat \<Rightarrow> string" where
  "substr s pos count = take count (drop pos s)"

definition substr_to :: "string \<Rightarrow> nat \<Rightarrow> nat option \<Rightarrow> string" where
  "substr_to s pos e = (case e of None \<Rightarrow> drop pos s | Some e \<Rightarrow> substr s pos (e - pos))"

definition whitespace :: string where
  "whitespace = [CHR '' '', CHR 0x09, CHR 0x0A, CHR 0x0D]"

definition trim :: "string \<Rightarrow> string" where
  "trim input =
     (case find_first_not_of input whitespace of
        None \<Rightarrow> []
      | Some begin \<Rightarrow>
          (case find_last_not_of input whitespace of
             None \<Rightarrow> []
           | Some e \<Rightarrow> substr input begin (e - begin + 1)))"

definition escape_json :: "string \<Rightarrow> string" where
  \<open>escape_json input =
     concat (map (\<lambda>ch. if ch = CHR 0x22 then [CHR 0x5C, CHR 0x22]
                        else if ch = CHR 0x5C then [CHR 0x5C, CHR 0x5C]
                        else [ch]) input)\<close>

text \<open>
  The conversions of the standard library between numbers and text: \<open>operator<<\<close> on
  a \<open>double\<close>, a \<open>std::size_t\<close> and a \<open>std::int64_t\<close>, and \<open>std::stod\<close>, \<open>std::stoull\<close>
  and \<open>std::stoll\<close>, which throw on text they cannot convert.  They are parameters of
  the model.
\<close>

record conv =
  put_double :: "cdouble \<Rightarrow> string"
  put_u64 :: "u64 \<Rightarrow> string"
  put_i64 :: "i64 \<Rightarrow> string"
  stod :: "string \<Rightarrow> error + cdouble"
  stoull :: "string \<Rightarrow> error + u64"
  stoll :: "string \<Rightarrow> error + i64"

subsection \<open>\<open>save_to_json\<close>\<close>

definition entry_text :: "conv \<Rightarrow> node \<Rightarrow> string" where
  \<open>entry_text cv n =
     ''    {"user_id": "'' @ escape_json (user_id n) @ ''", '' @
     ''"score": '' @ put_double cv (score n) @
     '', "last_update": '' @ put_i64 cv (last_update n) @ ''}''\<close>

text \<open>The loop of \<open>for_each\<close> with its flag \<open>first\<close>.\<close>

fun entries_text :: "conv \<Rightarrow> bool \<Rightarrow> node list \<Rightarrow> string" where
  "entries_text cv first [] = []"
| "entries_text cv first (n # ns) =
     (if \<not> first then [CHR '','', CHR 0x0A] else []) @ entry_text cv n @ entries_text cv False ns"

text \<open>
  \<open>save_to_json\<close> returns the text it writes; \<open>writable\<close> is whether the file could be
  opened.
\<close>

definition save_to_json :: "conv \<Rightarrow> leaderboard \<Rightarrow> bool \<Rightarrow> (error + string) option" where
  \<open>save_to_json cv lb writable =
     (if \<not> writable then Some (Inl Runtime_error)
      else (case level0 (lb_skip_list lb) of
              None \<Rightarrow> None
            | Some ns \<Rightarrow>
                Some (Inr (''{'' @ [CHR 0x0A] @
                           ''  "decay_factor": '' @ put_double cv (decay_factor (lb_decay lb)) @
                           '','' @ [CHR 0x0A] @
                           ''  "max_users": '' @ put_u64 cv (lb_max_users lb) @ '','' @ [CHR 0x0A] @
                           ''  "entries": ['' @ [CHR 0x0A] @
                           entries_text cv True ns @
                           [CHR 0x0A] @ ''  ]'' @ [CHR 0x0A] @
                           ''}'' @ [CHR 0x0A]))))\<close>

subsection \<open>\<open>load_from_json\<close>\<close>

text \<open>The two lambdas: \<open>extract_numeric\<close> on the whole text, \<open>extract_value\<close> on an object.\<close>

definition extract_numeric :: "string \<Rightarrow> string \<Rightarrow> string option" where
  \<open>extract_numeric content key =
     (let needle = ''"'' @ key @ ''"''
      in case find_str content needle of
           None \<Rightarrow> None
         | Some key_pos \<Rightarrow>
             (case find_char content CHR '':'' key_pos of
                None \<Rightarrow> None
              | Some colon \<Rightarrow>
                  (let e = find_first_of content ('',}'' @ [CHR 0x0A]) (colon + 1)
                   in Some (trim (substr_to content (colon + 1) e)))))\<close>

definition extract_value :: "string \<Rightarrow> string \<Rightarrow> string option" where
  \<open>extract_value obj key =
     (let needle = ''"'' @ key @ ''"''
      in case find_str obj needle of
           None \<Rightarrow> None
         | Some key_position \<Rightarrow>
             (case find_char obj CHR '':'' key_position of
                None \<Rightarrow> None
              | Some colon_pos \<Rightarrow>
                  if key = ''user_id''
                  then (case find_char obj CHR 0x22 (colon_pos + 1) of
                          None \<Rightarrow> None
                        | Some first_quote \<Rightarrow>
                            (case find_char obj CHR 0x22 (first_quote + 1) of
                               None \<Rightarrow> None
                             | Some second_quote \<Rightarrow>
                                 Some (substr obj (first_quote + 1)
                                         (second_quote - first_quote - 1))))
                  else (let value_end = find_first_of obj ('',}'' @ [CHR 0x0A]) (colon_pos + 1)
                        in Some (trim (substr_to obj (colon_pos + 1) value_end)))))\<close>

lemma index_where_less: "index_where P s = Some i \<Longrightarrow> i < length s"
  by (induction s arbitrary: i) (auto split: if_splits)

lemma find_char_range: "find_char s c pos = Some i \<Longrightarrow> pos \<le> i \<and> i < length s"
  by (auto simp: find_char_def dest!: index_where_less)

text \<open>
  The loop over the objects of the entries block, from \<open>pos\<close> on.  The result is the
  exception thrown, if any, and the list.
\<close>

function load_entries ::
    "conv \<Rightarrow> skip_list \<Rightarrow> string \<Rightarrow> nat \<Rightarrow> (error option \<times> skip_list) option" where
  "load_entries cv sl entries_block pos =
     (case find_char entries_block CHR ''{'' pos of
        None \<Rightarrow> Some (None, sl)
      | Some obj_start \<Rightarrow>
          (case find_char entries_block CHR ''}'' obj_start of
             None \<Rightarrow> Some (None, sl)
           | Some obj_end \<Rightarrow>
               (case extract_value (substr entries_block (obj_start + 1) (obj_end - obj_start - 1))
                       ''user_id'' of
                  None \<Rightarrow> load_entries cv sl entries_block (obj_end + 1)
                | Some user \<Rightarrow>
                    (case extract_value
                            (substr entries_block (obj_start + 1) (obj_end - obj_start - 1))
                            ''score'' of
                       None \<Rightarrow> load_entries cv sl entries_block (obj_end + 1)
                     | Some score_text \<Rightarrow>
                         (case extract_value
                                 (substr entries_block (obj_start + 1) (obj_end - obj_start - 1))
                                 ''last_update'' of
                            None \<Rightarrow> load_entries cv sl entries_block (obj_end + 1)
                          | Some timestamp_text \<Rightarrow>
                              (case stod cv score_text of
                                 Inl e \<Rightarrow> Some (Some e, sl)
                               | Inr sc \<Rightarrow>
                                   (case stoll cv timestamp_text of
                                      Inl e \<Rightarrow> Some (Some e, sl)
                                    | Inr ts \<Rightarrow>
                                        (case upsert sl user sc ts of
                                           None \<Rightarrow> None
                                         | Some (sl', a) \<Rightarrow>
                                             load_entries cv sl' entries_block (obj_end + 1)))))))))"
  by pat_completeness auto
termination
  by (relation "measure (\<lambda>(cv, sl, entries_block, pos). length entries_block - pos)")
    (auto dest!: find_char_range)

declare load_entries.simps [simp del]

text \<open>
  The two header values, \<open>decay_ = TimeDecay(std::stod(*decay_value))\<close> and
  \<open>max_users_ = std::stoull(*max_users_value)\<close>: each is read when its key is found,
  and the conversion or the constructor of \<open>TimeDecay\<close> may throw.
\<close>

definition load_decay_factor :: "conv \<Rightarrow> leaderboard \<Rightarrow> string \<Rightarrow> error + leaderboard" where
  "load_decay_factor cv lb content =
     (case extract_numeric content ''decay_factor'' of
        None \<Rightarrow> Inr lb
      | Some decay_value \<Rightarrow>
          (case stod cv decay_value of
             Inl e \<Rightarrow> Inl e
           | Inr x \<Rightarrow>
               (case TimeDecay x of
                  Inl e \<Rightarrow> Inl e
                | Inr d \<Rightarrow> Inr (lb\<lparr>lb_decay := d\<rparr>))))"

definition load_max_users :: "conv \<Rightarrow> leaderboard \<Rightarrow> string \<Rightarrow> error + leaderboard" where
  "load_max_users cv lb content =
     (case extract_numeric content ''max_users'' of
        None \<Rightarrow> Inr lb
      | Some max_users_value \<Rightarrow>
          (case stoull cv max_users_value of
             Inl e \<Rightarrow> Inl e
           | Inr n \<Rightarrow> Inr (lb\<lparr>lb_max_users := n\<rparr>)))"

text \<open>
  The part after \<open>skip_list_.clear()\<close>: the entries block is located, the text
  between the first \<open>[\<close> after \<open>"entries"\<close> and the next \<open>]\<close>, and its objects are
  loaded into the list.
\<close>

definition entries_block_of :: "string \<Rightarrow> string option" where
  \<open>entries_block_of content =
     (case find_str content ''"entries"'' of
        None \<Rightarrow> None
      | Some entries_pos \<Rightarrow>
          (case find_char content CHR ''['' entries_pos of
             None \<Rightarrow> None
           | Some array_start \<Rightarrow>
               (case find_char content CHR '']'' array_start of
                  None \<Rightarrow> None
                | Some array_end \<Rightarrow>
                    Some (substr content (array_start + 1) (array_end - array_start - 1)))))\<close>

definition load_array :: "conv \<Rightarrow> skip_list \<Rightarrow> string \<Rightarrow> (error option \<times> skip_list) option" where
  "load_array cv sl content =
     (case entries_block_of content of
        None \<Rightarrow> Some (None, sl)
      | Some block \<Rightarrow> load_entries cv sl block 0)"

text \<open>
  \<open>load_from_json\<close>; \<open>file\<close> is the text of the file, \<open>None\<close> when it cannot be opened.
  The result is the exception thrown, if any, and the leaderboard the call leaves.
\<close>

definition load_from_json ::
    "conv \<Rightarrow> leaderboard \<Rightarrow> string option \<Rightarrow> (error option \<times> leaderboard) option" where
  "load_from_json cv lb file =
     (case file of
        None \<Rightarrow> Some (Some Runtime_error, lb)
      | Some content \<Rightarrow>
          (case load_decay_factor cv lb content of
             Inl e \<Rightarrow> Some (Some e, lb)
           | Inr lb1 \<Rightarrow>
               (case load_max_users cv lb1 content of
                  Inl e \<Rightarrow> Some (Some e, lb1)
                | Inr lb2 \<Rightarrow>
                    (case clear (lb_skip_list lb2) of
                       None \<Rightarrow> None
                     | Some cleared \<Rightarrow>
                         (case load_array cv cleared content of
                            None \<Rightarrow> None
                          | Some (thrown, sl) \<Rightarrow> Some (thrown, lb2\<lparr>lb_skip_list := sl\<rparr>))))))"


text \<open>Decimal digits.\<close>

definition is_digit :: "char \<Rightarrow> bool" where
  "is_digit c \<longleftrightarrow> CHR ''0'' \<le> c \<and> c \<le> CHR ''9''"

definition digit_value :: "char \<Rightarrow> nat" where
  "digit_value c = of_char c - 48"

definition digits_value :: "string \<Rightarrow> nat" where
  "digits_value ds = foldl (\<lambda>v c. 10 * v + digit_value c) 0 ds"

function dec :: "nat \<Rightarrow> string" where
  "dec n = (if n < 10 then [char_of (48 + n)] else dec (n div 10) @ [char_of (48 + n mod 10)])"
  by pat_completeness auto
termination
  by (relation "measure id") simp_all

declare dec.simps [simp del]

text \<open>
  An instance of the conversions, for concrete runs.  The integers are printed in
  decimal; \<open>stoull\<close> and \<open>stoll\<close> read a numeral made of digits (\<open>stoll\<close> also after a
  minus sign) and throw \<open>std::invalid_argument\<close> on text that does not start with one.
  Of the doubles only the whole numbers from 0 to 999999 and one half are printed and
  read, as \<open>operator<<\<close> and \<open>std::stod\<close> do: 1 as \<open>1\<close>, one half as \<open>0.5\<close>.
\<close>

definition read_unsigned :: "string \<Rightarrow> error + nat" where
  "read_unsigned s =
     (if takeWhile is_digit s = [] then Inl Invalid_argument
      else Inr (digits_value (takeWhile is_digit s)))"

definition plain_conv :: conv where
  "plain_conv =
     \<lparr>put_double = (\<lambda>x. case x of
          Finite r \<Rightarrow> if r = 1 / 2 then ''0.5''
                      else if 0 \<le> r \<and> r < 1000000 \<and> r = of_int \<lfloor>r\<rfloor> then dec (nat \<lfloor>r\<rfloor>)
                      else []
        | _ \<Rightarrow> []),
      put_u64 = (\<lambda>n. dec (unat n)),
      put_i64 = (\<lambda>i. if sint i < 0 then CHR ''-'' # dec (nat (- sint i)) else dec (nat (sint i))),
      stod = (\<lambda>s. if s = ''0.5'' then Inr (Finite (1 / 2))
                   else (case read_unsigned s of
                           Inl e \<Rightarrow> Inl e
                         | Inr n \<Rightarrow> if takeWhile is_digit s = s \<and> int n < 1000000 then Inr (Finite (of_nat n))
                                    else Inl Invalid_argument)),
      stoull = (\<lambda>s. case read_unsigned s of
                       Inl e \<Rightarrow> Inl e
                     | Inr n \<Rightarrow> if int n < 2 ^ 64 then Inr (of_nat n) else Inl Out_of_range),
      stoll = (\<lambda>s. case s of
                      [] \<Rightarrow> Inl Invalid_argument
                    | c # cs \<Rightarrow>
                        if c = CHR ''-''
                        then (case read_unsigned cs of
                                Inl e \<Rightarrow> Inl e
                              | Inr n \<Rightarrow> if int n \<le> 2 ^ 63 then Inr (- of_nat n) else Inl Out_of_range)
                        else (case read_unsigned s of
                                Inl e \<Rightarrow> Inl e
                              | Inr n \<Rightarrow> if int n < 2 ^ 63 then Inr (of_nat n) else Inl Out_of_range))\<rparr>"


section \<open>Sequences of skip-list operations\<close>

datatype op = Upsert string cdouble i64 | Erase string

fun run_op :: "skip_list \<Rightarrow> op \<Rightarrow> skip_list option" where
  "run_op s (Upsert uid sc timestamp) = map_option fst (upsert s uid sc timestamp)"
| "run_op s (Erase uid) = map_option fst (erase s uid)"

fun run :: "skip_list \<Rightarrow> op list \<Rightarrow> skip_list option" where
  "run s [] = Some s"
| "run s (x # xs) = (case run_op s x of None \<Rightarrow> None | Some s' \<Rightarrow> run s' xs)"

text \<open>
  What the operations are to do to the sorted list of entries: \<open>erase\<close> removes the
  entry of the user, \<open>upsert\<close> removes it and places the new entry in key order.
\<close>

fun apply_op :: "(string \<times> cdouble \<times> i64) list \<Rightarrow> op \<Rightarrow> (string \<times> cdouble \<times> i64) list" where
  "apply_op es (Upsert uid sc timestamp) =
     place (uid, sc, timestamp) (filter (\<lambda>e. fst e \<noteq> uid) es)"
| "apply_op es (Erase uid) = filter (\<lambda>e. fst e \<noteq> uid) es"

fun no_nan :: "op \<Rightarrow> bool" where
  "no_nan (Upsert uid sc timestamp) \<longleftrightarrow> sc \<noteq> NaN"
| "no_nan (Erase uid) \<longleftrightarrow> True"

lemma run_op_well_formed:
  assumes "well_formed s xs" "no_nan x"
  shows "\<exists>s' xs'. run_op s x = Some s' \<and> well_formed s' xs' \<and>
           entries (nodes s') xs' = apply_op (entries (nodes s) xs) x"
proof (cases x)
  case (Upsert uid sc timestamp)
  with assms(2) have "sc \<noteq> NaN" by simp
  from upsert_wf [OF assms(1) this, of uid timestamp] show ?thesis
    unfolding Upsert by auto
next
  case (Erase uid)
  from erase_wf [OF assms(1), of uid] show ?thesis
    unfolding Erase by auto
qed

lemma run_well_formed:
  assumes "well_formed s xs" "list_all no_nan ops"
  shows "\<exists>s' xs'. run s ops = Some s' \<and> well_formed s' xs' \<and>
           entries (nodes s') xs' = foldl apply_op (entries (nodes s) xs) ops"
  using assms
proof (induction ops arbitrary: s xs)
  case Nil
  then show ?case by auto
next
  case (Cons x ops)
  from Cons.prems(2) have x: "no_nan x" and ops: "list_all no_nan ops" by simp_all
  from run_op_well_formed [OF Cons.prems(1) x] obtain s1 xs1 where s1: "run_op s x = Some s1"
      "well_formed s1 xs1" "entries (nodes s1) xs1 = apply_op (entries (nodes s) xs) x"
    by blast
  from Cons.IH [OF s1(2) ops] show ?case
    using s1(1,3) by simp
qed

text \<open>
  The entries of a well-formed list, as the level-0 traversal visits them: in key
  order, one per user, and the index and the size agree with them.
\<close>

lemma well_formed_level0:
  assumes "well_formed s xs"
  shows "\<exists>ns. level0 s = Some ns \<and> map entry ns = entries (nodes s) xs \<and>
           sorted_wrt (\<lambda>a b. key_before (node_key a) (node_key b)) ns \<and>
           distinct (map user_id ns) \<and>
           (\<forall>u. find_node s u \<noteq> None \<longleftrightarrow> u \<in> set (map user_id ns)) \<and>
           sl_size s = of_nat (length ns)"
proof -
  let ?h = "nodes s"
  let ?ns = "map (node_at ?h) xs"
  from assms have dist: "distinct xs"
    and sorted: "sorted_wrt (\<lambda>a b. key_before (node_key (node_at ?h a)) (node_key (node_at ?h b))) xs"
    and index: "\<forall>u a. index s u = Some a \<longleftrightarrow> a \<in> set xs \<and> user_id (node_at ?h a) = u"
    and size: "sl_size s = of_nat (length xs)"
    by (simp_all add: well_formed_def)
  have "inj_on (\<lambda>a. user_id (node_at ?h a)) (set xs)"
  proof (rule inj_onI)
    fix a b assume "a \<in> set xs" "b \<in> set xs" "user_id (node_at ?h a) = user_id (node_at ?h b)"
    then have "index s (user_id (node_at ?h a)) = Some a" "index s (user_id (node_at ?h a)) = Some b"
      using index by auto
    then show "a = b" by simp
  qed
  then have "distinct (map user_id ?ns)"
    using dist by (simp add: distinct_map comp_def)
  moreover have "sorted_wrt (\<lambda>a b. key_before (node_key a) (node_key b)) ?ns"
    using sorted by (simp add: sorted_wrt_map)
  moreover have "\<forall>u. find_node s u \<noteq> None \<longleftrightarrow> u \<in> set (map user_id ?ns)"
    using index by (auto simp: find_node_def)
  ultimately show ?thesis
    using level0_wf [OF assms] size by (simp add: entries_def comp_def image_image)
qed

text \<open>
  The sorted-order property for scores that are not NaN.  From the list the
  constructor returns, every sequence of upserts and erases with scores other than NaN
  returns, and the level-0 traversal of the list it reaches visits the entries that
  the operations leave, in key order (higher score first, ties by ascending user id),
  one node per user.
\<close>

lemma skip_list_sorted:
  assumes "SkipList levels p seed = Inr s0" "list_all no_nan ops"
  shows "\<exists>s ns. run s0 ops = Some s \<and> level0 s = Some ns \<and>
           map entry ns = foldl apply_op [] ops \<and>
           sorted_wrt (\<lambda>a b. key_before (node_key a) (node_key b)) ns \<and>
           distinct (map user_id ns) \<and>
           (\<forall>u. find_node s u \<noteq> None \<longleftrightarrow> u \<in> set (map user_id ns)) \<and>
           sl_size s = of_nat (length ns)"
proof -
  from SkipList_wf [OF assms(1)] have "well_formed s0 []" by simp
  from run_well_formed [OF this assms(2)] obtain s xs where s: "run s0 ops = Some s"
      "well_formed s xs" "entries (nodes s) xs = foldl apply_op [] ops"
    by (auto simp: entries_def)
  from well_formed_level0 [OF s(2)] s(1,3) show ?thesis
    by auto
qed

text \<open>A run with a NaN score, every node of one level.\<close>

lemma nan_run:
  "(case SkipList 16 (Finite (1 / 2)) (\<lambda>n. Finite (3 / 4)) of
      Inl e \<Rightarrow> False
    | Inr s0 \<Rightarrow>
        (case run s0 [Upsert ''m'' (Finite 9) 1, Upsert ''0'' (Finite 3) 1, Upsert ''a'' NaN 1,
                      Upsert ''0'' (Finite 4) 1] of
           None \<Rightarrow> False
         | Some s \<Rightarrow>
             map_option (map entry) (level0 s) =
               Some [(''0'', Finite 4, 1), (''a'', NaN, 1), (''m'', Finite 9, 1), (''0'', Finite 3, 1)] \<and>
             sl_size s = 4))"
  by code_simp

text \<open>
  Claim C3.  The list of \<open>SkipList(16, 0.5)\<close>, every draw of the generator being \<open>0.75\<close>
  (so every node has one level).  After \<open>upsert("m", 9)\<close>, \<open>upsert("0", 3)\<close> and
  \<open>upsert("a", NaN)\<close> the node of \<open>a\<close> stands first: no comparison with its score
  holds, and \<open>"m" < "a"\<close> does not.  \<open>upsert("0", 4)\<close> then calls \<open>erase("0")\<close>, whose
  search stops in front of the node of \<open>a\<close> and does not find the node of \<open>0\<close>; the
  old node stays, and a second node for \<open>0\<close> is inserted.  The level-0 traversal
  visits user \<open>0\<close> twice, and the size is 4 for three users.
\<close>

theorem upsert_nan_duplicate_user:
  "\<exists>s0 s. SkipList 16 (Finite (1 / 2)) (\<lambda>n. Finite (3 / 4)) = Inr s0 \<and>
      run s0 [Upsert ''m'' (Finite 9) 1, Upsert ''0'' (Finite 3) 1, Upsert ''a'' NaN 1,
              Upsert ''0'' (Finite 4) 1] = Some s \<and>
      map_option (map entry) (level0 s) =
        Some [(''0'', Finite 4, 1), (''a'', NaN, 1), (''m'', Finite 9, 1), (''0'', Finite 3, 1)] \<and>
      sl_size s = 4"
  using nan_run by (auto split: sum.splits option.splits)

text \<open>Three updates of a leaderboard with \<open>max_users = 2\<close>, the third with a NaN.\<close>

lemma nan_cap_run:
  "(case Leaderboard (Finite (1 / 2)) 2 (\<lambda>n. Finite (3 / 4)) of
      Inl e \<Rightarrow> False
    | Inr lb0 \<Rightarrow>
        (case update_user ar lb0 ''m'' (Finite 9) 1 0 of
           None \<Rightarrow> False
         | Some lb1 \<Rightarrow>
             (case update_user ar lb1 ''0'' (Finite 3) 1 0 of
                None \<Rightarrow> False
              | Some lb2 \<Rightarrow>
                  (case update_user ar lb2 ''a'' NaN 1 0 of
                     None \<Rightarrow> False
                   | Some lb3 \<Rightarrow>
                       lb_max_users lb3 = 2 \<and> lb_size lb3 = 3 \<and>
                       map_option (map entry) (level0 (lb_skip_list lb3)) =
                         Some [(''a'', NaN, 1), (''m'', Finite 9, 1), (''0'', Finite 3, 1)]))))"
  by code_simp

text \<open>
  Claim C5.  A leaderboard with \<open>max_users = 2\<close>, every draw of the generator being
  \<open>0.75\<close>.  After \<open>update_user("m", 9, 1)\<close> and \<open>update_user("0", 3, 1)\<close> the call
  \<open>update_user("a", NaN, 1)\<close> inserts a third node, in front of the other two.  The
  size 3 exceeds the cap, and the tail is the node of \<open>0\<close>; but \<open>erase("0")\<close> searches
  by key, stops in front of the node with the NaN score and removes nothing.
  \<open>update_user\<close> returns with three users stored.
\<close>

theorem update_user_exceeds_cap:
  "\<exists>lb0 lb1 lb2 lb3. Leaderboard (Finite (1 / 2)) 2 (\<lambda>n. Finite (3 / 4)) = Inr lb0 \<and>
      update_user ar lb0 ''m'' (Finite 9) 1 0 = Some lb1 \<and>
      update_user ar lb1 ''0'' (Finite 3) 1 0 = Some lb2 \<and>
      update_user ar lb2 ''a'' NaN 1 0 = Some lb3 \<and>
      lb_max_users lb3 = 2 \<and> lb_size lb3 = 3 \<and>
      map_option (map entry) (level0 (lb_skip_list lb3)) =
        Some [(''a'', NaN, 1), (''m'', Finite 9, 1), (''0'', Finite 3, 1)]"
  using nan_cap_run [of ar] by (auto split: sum.splits option.splits)

text \<open>The run in the arithmetic that does not round.\<close>

theorem update_user_exceeds_cap_witness:
  "\<exists>lb0 lb1 lb2 lb3. Leaderboard (Finite (1 / 2)) 2 (\<lambda>n. Finite (3 / 4)) = Inr lb0 \<and>
      update_user exact_arith lb0 ''m'' (Finite 9) 1 0 = Some lb1 \<and>
      update_user exact_arith lb1 ''0'' (Finite 3) 1 0 = Some lb2 \<and>
      update_user exact_arith lb2 ''a'' NaN 1 0 = Some lb3 \<and>
      lb_max_users lb3 = 2 \<and> lb_size lb3 = 3 \<and>
      map_option (map entry) (level0 (lb_skip_list lb3)) =
        Some [(''a'', NaN, 1), (''m'', Finite 9, 1), (''0'', Finite 3, 1)]"
  by (rule update_user_exceeds_cap)


section \<open>Loading a snapshot\<close>










section \<open>Saving and loading a snapshot\<close>

text \<open>The text that \<open>save_to_json\<close> writes for the run below.\<close>

definition quote_text :: string where
  \<open>quote_text =
     ''{'' @ [CHR 0x0A] @
     ''  "decay_factor": 0.5,'' @ [CHR 0x0A] @
     ''  "max_users": 10,'' @ [CHR 0x0A] @
     ''  "entries": ['' @ [CHR 0x0A] @
     ''    {"user_id": "a'' @ [CHR 0x5C] @ ''"b", "score": 1, "last_update": 5}'' @ [CHR 0x0A] @
     ''  ]'' @ [CHR 0x0A] @
     ''}'' @ [CHR 0x0A]\<close>

lemma quote_run:
  \<open>(case Leaderboard (Finite (1 / 2)) 10 (\<lambda>n. Finite (3 / 4)) of
      Inl e \<Rightarrow> False
    | Inr lb0 \<Rightarrow>
        (case update_user ar lb0 ''a"b'' (Finite 1) 5 0 of
           None \<Rightarrow> False
         | Some lb1 \<Rightarrow>
             map_option (map entry) (level0 (lb_skip_list lb1)) = Some [(''a"b'', Finite 1, 5)] \<and>
             save_to_json plain_conv lb1 True = Some (Inr quote_text) \<and>
             (case load_from_json plain_conv lb1 (Some quote_text) of
                None \<Rightarrow> False
              | Some r \<Rightarrow>
                  fst r = None \<and>
                  decay_factor (lb_decay (snd r)) = Finite (1 / 2) \<and> lb_max_users (snd r) = 10 \<and>
                  map_option (map entry) (level0 (lb_skip_list (snd r))) =
                    Some [(''a'' @ [CHR 0x5C], Finite 1, 5)])))\<close>
  by code_simp

text \<open>
  Claim C1.  A leaderboard holds one entry, of the user \<open>a"b\<close>.  \<open>save_to_json\<close>
  escapes the quote and writes \<open>"user_id": "a\"b"\<close>.  \<open>load_from_json\<close> takes the user
  id to end at the next quote, which is the escaped one, and does not undo the
  escape: the leaderboard it leaves holds the user \<open>a\\<close>, not \<open>a"b\<close>.
\<close>

theorem save_load_escaped_quote:
  \<open>\<exists>lb0 lb1 lb2.
     Leaderboard (Finite (1 / 2)) 10 (\<lambda>n. Finite (3 / 4)) = Inr lb0 \<and>
     update_user ar lb0 ''a"b'' (Finite 1) 5 0 = Some lb1 \<and>
     map_option (map entry) (level0 (lb_skip_list lb1)) = Some [(''a"b'', Finite 1, 5)] \<and>
     save_to_json plain_conv lb1 True = Some (Inr quote_text) \<and>
     load_from_json plain_conv lb1 (Some quote_text) = Some (None, lb2) \<and>
     decay_factor (lb_decay lb2) = Finite (1 / 2) \<and> lb_max_users lb2 = 10 \<and>
     map_option (map entry) (level0 (lb_skip_list lb2)) = Some [(''a'' @ [CHR 0x5C], Finite 1, 5)]\<close>
proof -
  from quote_run [of ar] obtain lb0 lb1 r where
      r: \<open>Leaderboard (Finite (1 / 2)) 10 (\<lambda>n. Finite (3 / 4)) = Inr lb0\<close>
      \<open>update_user ar lb0 ''a"b'' (Finite 1) 5 0 = Some lb1\<close>
      \<open>map_option (map entry) (level0 (lb_skip_list lb1)) = Some [(''a"b'', Finite 1, 5)]\<close>
      \<open>save_to_json plain_conv lb1 True = Some (Inr quote_text)\<close>
      \<open>load_from_json plain_conv lb1 (Some quote_text) = Some r\<close>
      \<open>fst r = None\<close>
      \<open>decay_factor (lb_decay (snd r)) = Finite (1 / 2)\<close> \<open>lb_max_users (snd r) = 10\<close>
      \<open>map_option (map entry) (level0 (lb_skip_list (snd r))) =
         Some [(''a'' @ [CHR 0x5C], Finite 1, 5)]\<close>
    by (auto split: sum.splits option.splits)
  from r(6) have \<open>r = (None, snd r)\<close>
    by (cases r) simp
  with r(5) have \<open>load_from_json plain_conv lb1 (Some quote_text) = Some (None, snd r)\<close>
    by simp
  with r(1-4,7-9) show ?thesis
    by (intro exI [of _ lb0] exI [of _ lb1] exI [of _ "snd r"] conjI)
qed

text \<open>The run in the arithmetic that does not round.\<close>

theorem save_load_escaped_quote_witness:
  \<open>\<exists>lb0 lb1 lb2.
     Leaderboard (Finite (1 / 2)) 10 (\<lambda>n. Finite (3 / 4)) = Inr lb0 \<and>
     update_user exact_arith lb0 ''a"b'' (Finite 1) 5 0 = Some lb1 \<and>
     map_option (map entry) (level0 (lb_skip_list lb1)) = Some [(''a"b'', Finite 1, 5)] \<and>
     save_to_json plain_conv lb1 True = Some (Inr quote_text) \<and>
     load_from_json plain_conv lb1 (Some quote_text) = Some (None, lb2) \<and>
     decay_factor (lb_decay lb2) = Finite (1 / 2) \<and> lb_max_users lb2 = 10 \<and>
     map_option (map entry) (level0 (lb_skip_list lb2)) = Some [(''a'' @ [CHR 0x5C], Finite 1, 5)]\<close>
  by (rule save_load_escaped_quote)


end
